theory Spec2Isabelle
  imports Main "HOL-Library.Word" "HOL-Library.Signed_Division"
begin

unbundle bit_operations_syntax

section \<open>The ATSC Viterbi decoder block (gr-dtv/lib/atsc/atsc_viterbi_decoder_impl.cc)\<close>

text \<open>
  The block demultiplexes batches of twelve 832-sample data segments into twelve
  per-encoder symbol rows, runs one Viterbi decoder over each row, passes every decoded
  dibit through a per-encoder fifo and packs the fifo's output into a temporary buffer
  \<open>out_copy\<close>, which is then copied segment by segment into the output stream together
  with a delayed \<open>plinfo\<close> tag.

  The development covers the translation unit \<open>atsc_viterbi_decoder_impl.cc\<close>. What
  that file takes from headers (\<open>atsc_types.h\<close>, \<open>atsc_viterbi_decoder_impl.h\<close>,
  \<open>atsc_viterbi_mux.h\<close>) and from the block runtime is either a parameter (record
  \<open>env\<close> below) or modelled from the specification, and marked so. Indices and sizes
  are natural numbers: they are bounded by the sizes of the buffers of a call, far below
  the range of \<open>int\<close>.
\<close>

subsection \<open>Constants\<close>

type_synonym byte = "8 word"

text \<open>Modelled from the spec: \<open>NCODERS\<close>, declared in the missing
  \<open>atsc_viterbi_decoder_impl.h\<close>; the spec fixes twelve encoders.\<close>

definition NCODERS :: nat where
  "NCODERS = 12"

text \<open>Modelled from the spec: \<open>ATSC_DATA_SEGMENT_LENGTH\<close>, declared in the missing
  \<open>atsc_types.h\<close>; the spec fixes 832 samples per segment.\<close>

definition ATSC_DATA_SEGMENT_LENGTH :: nat where
  "ATSC_DATA_SEGMENT_LENGTH = 832"

subsection \<open>The delay-compensation fifo\<close>

text \<open>Modelled from the spec: the class \<open>interleaver_fifo\<close> (instantiated at unsigned char) behind
  \<open>fifo[i]\<close>, whose header is missing. The spec describes a fixed-size circular buffer:
  \<open>stuff\<close> stores the new dibit in the current slot and returns the dibit that slot held
  (the oldest one), then advances the slot with wraparound; \<open>reset\<close> restores the initial
  state, every slot holding the initial dibit 0. A queue of capacity 0 has no slot; the
  spec's delay law \<open>o_{i+C} = d_i\<close> at \<open>C = 0\<close> makes \<open>stuff\<close> return its argument.\<close>

record fifo =
  m_size :: nat
  m_position :: nat
  m_fifo :: "byte list"

definition fifo_reset :: "fifo \<Rightarrow> fifo" where
  "fifo_reset q = q\<lparr>m_position := 0, m_fifo := replicate (m_size q) 0\<rparr>"

definition interleaver_fifo :: "nat \<Rightarrow> fifo" where
  "interleaver_fifo n = fifo_reset \<lparr>m_size = n, m_position = 0, m_fifo = []\<rparr>"

definition stuff :: "fifo \<Rightarrow> byte \<Rightarrow> byte \<times> fifo" where
  "stuff q x =
     (if m_size q = 0 then (x, q)
      else (m_fifo q ! m_position q,
            q\<lparr>m_fifo := (m_fifo q)[m_position q := x],
              m_position := (if m_size q \<le> m_position q + 1 then 0 else m_position q + 1)\<rparr>))"

text \<open>Feeding a sequence of dibits through \<open>stuff\<close>, collecting what it returns.\<close>

fun stuff_all :: "fifo \<Rightarrow> byte list \<Rightarrow> byte list \<times> fifo" where
  "stuff_all q [] = ([], q)"
| "stuff_all q (d # ds) =
     (case stuff q d of (r, q1) \<Rightarrow>
        (case stuff_all q1 ds of (rs, q2) \<Rightarrow> (r # rs, q2)))"

text \<open>The buffer invariant, and the buffered dibits read in the order they will leave.\<close>

definition fifo_wf :: "fifo \<Rightarrow> bool" where
  "fifo_wf q \<longleftrightarrow> length (m_fifo q) = m_size q \<and> (m_size q = 0 \<or> m_position q < m_size q)"

definition fifo_contents :: "fifo \<Rightarrow> byte list" where
  "fifo_contents q = drop (m_position q) (m_fifo q) @ take (m_position q) (m_fifo q)"

subsection \<open>Parameters: what the missing headers declare\<close>

text \<open>Modelled from the spec: the class \<open>plinfo\<close> of the missing \<open>atsc_types.h\<close>.
  The spec lists what a tag encodes: the segment index, the field index and the
  field-sync flag.\<close>

record plinfo =
  segno :: nat
  field :: nat
  field_sync :: bool

text \<open>
  The environment of the block, type \<open>'s\<close> being the state of one Viterbi decoder
  (class \<open>atsc_single_viterbi\<close>, missing) and \<open>'a\<close> the type of a sample (float):
  \<^item> \<open>atsc_single_viterbi\<close>: the decoder that the default constructor of the class
    makes, with which every element of the member array \<open>viterbi[NCODERS]\<close> starts;
  \<^item> \<open>decode\<close> and \<open>delay\<close>: the two member functions of a decoder that the block calls;
  \<^item> \<open>enco_which_max\<close>, \<open>enco_which_syms\<close>, \<open>enco_which_dibits\<close>: the interleave
    tables of the missing \<open>atsc_viterbi_mux.h\<close>;
  \<^item> \<open>ATSC_MPEG_RS_ENCODED_LENGTH\<close> and \<open>OUTPUT_SIZE\<close>: the byte length of an output
    segment and of the temporary buffer \<open>out_copy\<close>;
  \<^item> \<open>from_tag_value\<close> and \<open>get_tag_value\<close>: the coding of a \<open>plinfo\<close> as the
    64-bit value of a tag;
  \<^item> \<open>dsegs_per_field\<close> and \<open>fields_per_frame\<close>: the frame geometry that
    \<open>plinfo::delay\<close> counts in.
\<close>

record ('s, 'a) env =
  atsc_single_viterbi :: 's
  decode :: "'s \<Rightarrow> 'a \<Rightarrow> byte \<times> 's"
  delay :: "'s \<Rightarrow> int"
  enco_which_max :: nat
  enco_which_syms :: "nat \<Rightarrow> nat \<Rightarrow> nat"
  enco_which_dibits :: "nat \<Rightarrow> nat \<Rightarrow> nat"
  ATSC_MPEG_RS_ENCODED_LENGTH :: nat
  OUTPUT_SIZE :: nat
  from_tag_value :: "64 word \<Rightarrow> plinfo"
  get_tag_value :: "plinfo \<Rightarrow> 64 word"
  dsegs_per_field :: nat
  fields_per_frame :: nat

text \<open>Modelled from the spec: \<open>plinfo::delay\<close> of the missing \<open>atsc_types.h\<close>. The
  spec asks for the segment index advanced by the delay modulo the segments-per-field
  count, and the field index adjusted for each field boundary crossed (the field index
  itself counting within the frame).\<close>

definition plinfo_delay :: "('s, 'a) env \<Rightarrow> plinfo \<Rightarrow> nat \<Rightarrow> plinfo" where
  "plinfo_delay env pli nsegs_of_delay =
     pli\<lparr>segno := (segno pli + nsegs_of_delay) mod dsegs_per_field env,
         field := (field pli + (segno pli + nsegs_of_delay) div dsegs_per_field env)
                    mod fields_per_frame env\<rparr>"

subsection \<open>Stream tags\<close>

text \<open>A tag of a stream: its absolute position, its key, and its value, here the unsigned
  64-bit integer that \<open>pmt::to_uint64\<close> reads from it.\<close>

record tag =
  tag_offset :: nat
  tag_key :: string
  tag_value :: "64 word"

definition tag_pmt :: string where
  "tag_pmt = ''plinfo''"

text \<open>Modelled from the spec: \<open>get_tags_in_window\<close> of the block runtime, which is
  missing. It returns the tags of the input stream that carry the given key and sit at an
  absolute position in the window, the window being given relative to the number of
  items read so far; the spec looks a tag up by exact position.\<close>

definition get_tags_in_window :: "tag list \<Rightarrow> nat \<Rightarrow> nat \<Rightarrow> nat \<Rightarrow> string \<Rightarrow> tag list" where
  "get_tags_in_window ts nread rel_start rel_end k =
     filter (\<lambda>t. nread + rel_start \<le> tag_offset t \<and> tag_offset t < nread + rel_end
                 \<and> tag_key t = k) ts"

subsection \<open>State of the block and arguments of a call\<close>

text \<open>
  The members of the block are the decoder array \<open>viterbi\<close> and the vector \<open>fifo\<close>. With
  them the state holds what a call of \<open>work\<close> leaves in the output stream: the bytes it
  wrote through the pointer \<open>out\<close> (a store from byte offsets to values, undefined where
  nothing was written, and not limited to the buffer the scheduler handed in) and the
  tags it attached.
\<close>

record 's state =
  viterbi :: "'s list"
  fifo :: "fifo list"
  out :: "nat \<rightharpoonup> byte"
  out_tags :: "tag list"

text \<open>
  What one call of \<open>work\<close> is given: \<open>noutput_items\<close>, the input samples behind the
  pointer \<open>in\<close>, the tags of the input stream, the runtime's counters
  \<open>nitems_read(0)\<close> and \<open>nitems_written(0)\<close>, and the content that the uninitialised
  local array \<open>out_copy\<close> happens to have.
\<close>

record 'a args =
  noutput_items :: int
  inbuf :: "nat \<Rightarrow> 'a"
  in_tags :: "tag list"
  nitems_read :: nat
  nitems_written :: nat
  out_copy_init :: "nat \<Rightarrow> byte"

datatype error = assertion_failed | runtime_error string

subsection \<open>Construction and reset\<close>

text \<open>\<open>reset\<close>: the loop over \<open>i < NCODERS\<close> calling \<open>fifo[i].reset()\<close>.\<close>

fun reset_from :: "nat \<Rightarrow> nat \<Rightarrow> fifo list \<Rightarrow> fifo list" where
  "reset_from i 0 fs = fs"
| "reset_from i (Suc n) fs = reset_from (Suc i) n (fs[i := fifo_reset (fs ! i)])"

definition reset :: "'s state \<Rightarrow> 's state" where
  "reset st = st\<lparr>fifo := reset_from 0 NCODERS (fifo st)\<rparr>"

text \<open>
  The constructor. The member array \<open>viterbi[NCODERS]\<close> is default-constructed, twelve
  equal decoders; the body computes one \<open>fifo_size\<close> from \<open>viterbi[0].delay()\<close>,
  constructs twelve fifos of that size and calls \<open>reset()\<close>. Nothing has been written to
  the output stream yet. The fifo's constructor takes its size from a header that is not
  part of this development; a capacity is a natural number here, and a \<open>fifo_size\<close>
  below 0 (a delay above 828), which has no meaning as one, is taken as 0.
\<close>

definition default_decoders :: "('s, 'a) env \<Rightarrow> 's list" where
  "default_decoders env = replicate NCODERS (atsc_single_viterbi env)"

definition fifo_size :: "('s, 'a) env \<Rightarrow> 's list \<Rightarrow> int" where
  "fifo_size env vs = int ATSC_DATA_SEGMENT_LENGTH - 4 - delay env (vs ! 0)"

definition atsc_viterbi_decoder_impl :: "('s, 'a) env \<Rightarrow> 's state" where
  "atsc_viterbi_decoder_impl env =
     reset \<lparr>viterbi = default_decoders env,
            fifo = replicate NCODERS
                     (interleaver_fifo (nat (fifo_size env (default_decoders env)))),
            out = Map.empty, out_tags = []\<rparr>"

subsection \<open>One batch of twelve segments\<close>

text \<open>The symbol buffer: \<open>symbols[encoder][k]\<close> is read from \<open>in\<close> at this index.\<close>

definition sample_index :: "('s, 'a) env \<Rightarrow> nat \<Rightarrow> nat \<Rightarrow> nat \<Rightarrow> nat" where
  "sample_index env i encoder k =
     (i + enco_which_syms env encoder k div 832) * ATSC_DATA_SEGMENT_LENGTH
       + enco_which_syms env encoder k mod 832"

definition build_symbols :: "('s, 'a) env \<Rightarrow> (nat \<Rightarrow> 'a) \<Rightarrow> nat \<Rightarrow> 'a list list" where
  "build_symbols env inb i =
     map (\<lambda>encoder. map (\<lambda>k. inb (sample_index env i encoder k)) [0..<enco_which_max env])
       [0..<NCODERS]"

text \<open>One decoder run over its row of symbols: the dibits and the decoder afterwards.\<close>

fun decode_row :: "('s \<Rightarrow> 'a \<Rightarrow> byte \<times> 's) \<Rightarrow> 's \<Rightarrow> 'a list \<Rightarrow> byte list \<times> 's" where
  "decode_row dec v [] = ([], v)"
| "decode_row dec v (x # xs) =
     (case dec v x of (d, v1) \<Rightarrow>
        (case decode_row dec v1 xs of (ds, v2) \<Rightarrow> (d # ds, v2)))"

definition run_decoders :: "('s, 'a) env \<Rightarrow> 's list \<Rightarrow> 'a list list \<Rightarrow> (byte list \<times> 's) list" where
  "run_decoders env vs symbols =
     map (\<lambda>encoder. decode_row (decode env) (vs ! encoder) (symbols ! encoder)) [0..<NCODERS]"

text \<open>
  Storing a dibit: \<open>dbindex = dbwhere >> 3\<close>, \<open>shift = dbwhere & 0x7\<close>, and the byte is
  rewritten as \<open>(out_copy[dbindex] & ~(0x03 << shift)) | (dibit << shift)\<close>, computed on
  \<open>int\<close> (32 bits) and truncated to a byte by the assignment.
\<close>

definition store_dibit :: "(nat \<Rightarrow> byte) \<Rightarrow> nat \<Rightarrow> byte \<Rightarrow> (nat \<Rightarrow> byte)" where
  "store_dibit oc dbwhere d =
     (let dbindex = drop_bit 3 dbwhere;
          shift = dbwhere AND 7
      in oc(dbindex :=
           ucast (((ucast (oc dbindex) :: 32 word) AND NOT (push_bit shift 3))
                    OR push_bit shift (ucast d :: 32 word))))"

definition pack_step :: "(nat \<Rightarrow> nat) \<Rightarrow> nat \<Rightarrow> fifo \<Rightarrow> (nat \<Rightarrow> byte) \<Rightarrow> byte
    \<Rightarrow> fifo \<times> (nat \<Rightarrow> byte)" where
  "pack_step dbw k q oc d = (case stuff q d of (r, q1) \<Rightarrow> (q1, store_dibit oc (dbw k) r))"

fun pack_row :: "(nat \<Rightarrow> nat) \<Rightarrow> nat \<Rightarrow> fifo \<Rightarrow> (nat \<Rightarrow> byte) \<Rightarrow> byte list
    \<Rightarrow> fifo \<times> (nat \<Rightarrow> byte)" where
  "pack_row dbw k q oc [] = (q, oc)"
| "pack_row dbw k q oc (d # ds) =
     (case pack_step dbw k q oc d of (q1, oc1) \<Rightarrow> pack_row dbw (Suc k) q1 oc1 ds)"

fun pack_encoders :: "('s, 'a) env \<Rightarrow> nat \<Rightarrow> fifo list \<Rightarrow> (nat \<Rightarrow> byte) \<Rightarrow> byte list list
    \<Rightarrow> fifo list \<times> (nat \<Rightarrow> byte)" where
  "pack_encoders env encoder fs oc [] = (fs, oc)"
| "pack_encoders env encoder fs oc (row # rows) =
     (case pack_row (enco_which_dibits env encoder) 0 (fs ! encoder) oc row of
        (q, oc1) \<Rightarrow> pack_encoders env (Suc encoder) (fs[encoder := q]) oc1 rows)"

text \<open>The first three loops of a batch: gather, decode, pack.\<close>

definition decode_batch :: "('s, 'a) env \<Rightarrow> (nat \<Rightarrow> 'a) \<Rightarrow> nat \<Rightarrow> (nat \<Rightarrow> byte) \<Rightarrow> 's state
    \<Rightarrow> (nat \<Rightarrow> byte) \<times> 's state" where
  "decode_batch env inb i oc st =
     (let symbols = build_symbols env inb i;
          r = run_decoders env (viterbi st) symbols;
          dibits = map fst r
      in case pack_encoders env 0 (fifo st) oc dibits of
           (fs, oc1) \<Rightarrow> (oc1, st\<lparr>viterbi := map snd r, fifo := fs\<rparr>))"

subsection \<open>Copying out and tagging\<close>

definition memcpy :: "(nat \<rightharpoonup> byte) \<Rightarrow> nat \<Rightarrow> (nat \<Rightarrow> byte) \<Rightarrow> nat \<Rightarrow> nat \<Rightarrow> (nat \<rightharpoonup> byte)" where
  "memcpy dst d src s n =
     (\<lambda>a. if d \<le> a \<and> a < d + n then Some (src (s + (a - d))) else dst a)"

definition add_item_tag :: "'s state \<Rightarrow> nat \<Rightarrow> string \<Rightarrow> 64 word \<Rightarrow> 's state" where
  "add_item_tag st abs_offset k v =
     st\<lparr>out_tags := out_tags st @ [\<lparr>tag_offset = abs_offset, tag_key = k, tag_value = v\<rparr>]\<rparr>"

text \<open>
  The loop over \<open>j < NCODERS\<close> that ends a batch. It stops with the exception when the
  window at \<open>i + j\<close> holds no tag; otherwise it copies segment \<open>j\<close> of \<open>out_copy\<close> to
  \<open>out\<close> and attaches the delayed tag. The exception is returned with the state reached.
\<close>

function copy_segments :: "('s, 'a) env \<Rightarrow> 'a args \<Rightarrow> (nat \<Rightarrow> byte) \<Rightarrow> nat \<Rightarrow> nat \<Rightarrow> 's state
    \<Rightarrow> error option \<times> 's state" where
  "copy_segments env a oc i j st =
     (if j < NCODERS then
        (case get_tags_in_window (in_tags a) (nitems_read a) (i + j) (i + j + 1) tag_pmt of
           [] \<Rightarrow> (Some (runtime_error ''No plinfo on tag''), st)
         | t # ts \<Rightarrow>
             (let pli_in = from_tag_value env (tag_value t);
                  st1 = st\<lparr>out := memcpy (out st)
                                   ((i * NCODERS + j) * ATSC_MPEG_RS_ENCODED_LENGTH env)
                                   oc (j * OUTPUT_SIZE env div NCODERS)
                                   (ATSC_MPEG_RS_ENCODED_LENGTH env)\<rparr>;
                  pli_out = plinfo_delay env pli_in NCODERS
              in copy_segments env a oc i (j + 1)
                   (add_item_tag st1 (nitems_written a + i + j) tag_pmt
                      (get_tag_value env pli_out))))
      else (None, st))"
  by pat_completeness auto
termination
  by (relation "measure (\<lambda>(env, a, oc, i, j, st). NCODERS - j)") auto

declare copy_segments.simps [simp del]

subsection \<open>The work function\<close>

function work_loop :: "('s, 'a) env \<Rightarrow> 'a args \<Rightarrow> nat \<Rightarrow> (nat \<Rightarrow> byte) \<Rightarrow> 's state
    \<Rightarrow> (error + int) \<times> 's state" where
  "work_loop env a i oc st =
     (if int i < noutput_items a then
        (case decode_batch env (inbuf a) i oc st of
           (oc1, st1) \<Rightarrow>
             (case copy_segments env a oc1 i 0 st1 of
                (Some e, st2) \<Rightarrow> (Inl e, st2)
              | (None, st2) \<Rightarrow> work_loop env a (i + NCODERS) oc1 st2))
      else (Inr (noutput_items a), st))"
  by pat_completeness auto
termination
  by (relation "measure (\<lambda>(env, a, i, oc, st). nat (noutput_items a - int i))")
    (auto simp: NCODERS_def)

declare work_loop.simps [simp del]

text \<open>\<open>work\<close>: the assertion, then the loop over the batches. The remainder of the C++
  \<open>%\<close> takes the sign of the dividend, as \<open>smod\<close> does.\<close>

definition work :: "('s, 'a) env \<Rightarrow> 'a args \<Rightarrow> 's state \<Rightarrow> (error + int) \<times> 's state" where
  "work env a st =
     (if noutput_items a smod int NCODERS \<noteq> 0 then (Inl assertion_failed, st)
      else work_loop env a 0 (out_copy_init a) st)"

section \<open>Notions used to state the properties\<close>

text \<open>The concatenated samples of the twelve segments of the batch that starts at
  segment \<open>i\<close>.\<close>

definition batch_input :: "(nat \<Rightarrow> 'a) \<Rightarrow> nat \<Rightarrow> 'a list" where
  "batch_input inb i =
     map inb [i * ATSC_DATA_SEGMENT_LENGTH ..< (i + NCODERS) * ATSC_DATA_SEGMENT_LENGTH]"

text \<open>The \<open>plinfo\<close> tags found at input position \<open>p\<close> of a call, and the tag that the
  copy loop attaches for that position.\<close>

definition in_tag_at :: "'a args \<Rightarrow> nat \<Rightarrow> tag list" where
  "in_tag_at a p = get_tags_in_window (in_tags a) (nitems_read a) p (p + 1) tag_pmt"

definition out_tag :: "('s, 'a) env \<Rightarrow> 'a args \<Rightarrow> nat \<Rightarrow> tag" where
  "out_tag env a p =
     \<lparr>tag_offset = nitems_written a + p, tag_key = tag_pmt,
      tag_value = get_tag_value env
        (plinfo_delay env (from_tag_value env (tag_value (hd (in_tag_at a p)))) NCODERS)\<rparr>"

text \<open>The \<open>plinfo\<close> that the input tag at position \<open>p\<close> carries.\<close>

definition in_plinfo :: "('s, 'a) env \<Rightarrow> 'a args \<Rightarrow> nat \<Rightarrow> plinfo" where
  "in_plinfo env a p = from_tag_value env (tag_value (hd (in_tag_at a p)))"

text \<open>The byte offsets of output segment \<open>s\<close>; the output segment that the copy loop
  addresses for position \<open>p = i + j\<close>, namely \<open>i * NCODERS + j\<close>; and the state after
  the body of the copy loop has run for \<open>j\<close>.\<close>

definition seg_bytes :: "('s, 'a) env \<Rightarrow> nat \<Rightarrow> nat set" where
  "seg_bytes env s =
     {b. s * ATSC_MPEG_RS_ENCODED_LENGTH env \<le> b
         \<and> b < s * ATSC_MPEG_RS_ENCODED_LENGTH env + ATSC_MPEG_RS_ENCODED_LENGTH env}"

definition out_segment :: "nat \<Rightarrow> nat" where
  "out_segment p = (p div NCODERS * NCODERS) * NCODERS + p mod NCODERS"

definition seg_done :: "('s, 'a) env \<Rightarrow> 'a args \<Rightarrow> (nat \<Rightarrow> byte) \<Rightarrow> nat \<Rightarrow> nat \<Rightarrow> 's state
    \<Rightarrow> 's state" where
  "seg_done env a oc i j st =
     st\<lparr>out := memcpy (out st) ((i * NCODERS + j) * ATSC_MPEG_RS_ENCODED_LENGTH env)
                  oc (j * OUTPUT_SIZE env div NCODERS) (ATSC_MPEG_RS_ENCODED_LENGTH env),
        out_tags := out_tags st @ [out_tag env a (i + j)]\<rparr>"

text \<open>
  The bit-pair of the output bit offset \<open>b\<close>: bit \<open>n\<close> of byte \<open>a\<close> belongs to it when
  \<open>a\<close> is \<open>b div 8\<close> and \<open>n\<close> is \<open>b mod 8\<close> or the bit above. The queue-delayed dibit of
  encoder \<open>e\<close> and slot \<open>k\<close> in the batch at \<open>i\<close>: what \<open>fifo[e]\<close> returns to the
  \<open>k\<close>-th of the calls of \<open>stuff\<close> that feed it the dibits decoder \<open>e\<close> decodes from
  its row of symbols.
\<close>

definition covers :: "nat \<Rightarrow> nat \<Rightarrow> nat \<Rightarrow> bool" where
  "covers b a n \<longleftrightarrow> a = b div 8 \<and> (n = b mod 8 \<or> n = b mod 8 + 1)"

definition delayed_dibit :: "('s, 'a) env \<Rightarrow> (nat \<Rightarrow> 'a) \<Rightarrow> nat \<Rightarrow> 's state \<Rightarrow> nat \<Rightarrow> nat
    \<Rightarrow> byte" where
  "delayed_dibit env inb i st e k =
     fst (stuff_all (fifo st ! e)
            (fst (decode_row (decode env) (viterbi st ! e) (build_symbols env inb i ! e)))) ! k"

text \<open>The lifetime of a block: any sequence of calls of \<open>work\<close> and \<open>reset\<close> after the
  constructor.\<close>

datatype 'a call = Work "'a args" | Reset

fun run_calls :: "('s, 'a) env \<Rightarrow> 's state \<Rightarrow> 'a call list \<Rightarrow> 's state" where
  "run_calls env st [] = st"
| "run_calls env st (Work a # cs) = run_calls env (snd (work env a st)) cs"
| "run_calls env st (Reset # cs) = run_calls env (reset st) cs"

definition fifos_sized :: "nat \<Rightarrow> fifo list \<Rightarrow> bool" where
  "fifos_sized n fs \<longleftrightarrow> length fs = NCODERS \<and> (\<forall>e < NCODERS. m_size (fs ! e) = n)"

text \<open>Fifos that are well formed and hold dibits only.\<close>

definition fifo_dibits :: "fifo \<Rightarrow> bool" where
  "fifo_dibits q \<longleftrightarrow> fifo_wf q \<and> (\<forall>x \<in> set (m_fifo q). x \<le> 3)"

definition fifos_dibits :: "fifo list \<Rightarrow> bool" where
  "fifos_dibits fs \<longleftrightarrow> length fs = NCODERS \<and> (\<forall>e < NCODERS. fifo_dibits (fs ! e))"

definition decoders_delay :: "('s, 'a) env \<Rightarrow> int \<Rightarrow> 's list \<Rightarrow> bool" where
  "decoders_delay env D vs \<longleftrightarrow> length vs = NCODERS \<and> (\<forall>e < NCODERS. delay env (vs ! e) = D)"

section \<open>A test bench\<close>

text \<open>
  A stand-in for the decoder, of the kind the spec proposes for testing the realignment:
  its state is the list of dibits it still holds back, \<open>delay\<close> is the length of that
  list, and \<open>decode\<close> appends the dibit of the sample (the sample's low two bits) and
  releases the oldest one, as a dibit. The interleave map deals the 828 data symbols of each segment
  round-robin to the twelve encoders and packs four dibits per byte, high bits first;
  the geometry is that of ATSC (207-byte segments, 312 segments per field, two fields).
\<close>

definition fake_decode :: "byte list \<Rightarrow> byte \<Rightarrow> byte \<times> byte list" where
  "fake_decode buf x = (hd (buf @ [x AND 3]) AND 3, tl (buf @ [x AND 3]))"

definition test_env :: "(byte list, byte) env" where
  "test_env =
     \<lparr>atsc_single_viterbi = [0],
      decode = fake_decode,
      delay = (\<lambda>buf. int (length buf)),
      enco_which_max = 828,
      enco_which_syms = (\<lambda>e k. (k * 12 + e) div 828 * 832 + 4 + (k * 12 + e) mod 828),
      enco_which_dibits = (\<lambda>e k. 8 * (k div 4 * 12 + e) + (6 - 2 * (k mod 4))),
      ATSC_MPEG_RS_ENCODED_LENGTH = 207,
      OUTPUT_SIZE = 2484,
      from_tag_value = (\<lambda>w. \<lparr>segno = unat w mod 65536, field = unat w div 65536 mod 2,
                               field_sync = False\<rparr>),
      get_tag_value = (\<lambda>pli. of_nat (segno pli + 65536 * field pli)),
      dsegs_per_field = 312,
      fields_per_frame = 2\<rparr>"

definition test_tags :: "nat list \<Rightarrow> tag list" where
  "test_tags ps = map (\<lambda>p. \<lparr>tag_offset = p, tag_key = tag_pmt, tag_value = of_nat p\<rparr>) ps"

definition test_args :: "int \<Rightarrow> byte \<Rightarrow> tag list \<Rightarrow> byte args" where
  "test_args n x ts =
     \<lparr>noutput_items = n, inbuf = (\<lambda>_. x), in_tags = ts, nitems_read = 0,
      nitems_written = 0, out_copy_init = (\<lambda>_. 0)\<rparr>"

text \<open>The block of the test bench, as constructed.\<close>

definition test_block :: "byte list state" where
  "test_block = atsc_viterbi_decoder_impl test_env"

section \<open>Properties of the fifo\<close>

lemma fifo_wf_reset [simp]: "fifo_wf (fifo_reset q)"
  by (auto simp: fifo_wf_def fifo_reset_def)

lemma fifo_contents_reset [simp]: "fifo_contents (fifo_reset q) = replicate (m_size q) 0"
  by (simp add: fifo_contents_def fifo_reset_def)

lemma m_size_reset [simp]: "m_size (fifo_reset q) = m_size q"
  by (simp add: fifo_reset_def)

lemma m_size_stuff [simp]: "m_size (snd (stuff q x)) = m_size q"
  by (simp add: stuff_def)

lemma fifo_wf_stuff: "fifo_wf q \<Longrightarrow> fifo_wf (snd (stuff q x))"
  by (auto simp: fifo_wf_def stuff_def)

lemma length_fifo_contents: "fifo_wf q \<Longrightarrow> length (fifo_contents q) = m_size q"
  by (auto simp: fifo_wf_def fifo_contents_def)

lemma stuff_empty: "m_size q = 0 \<Longrightarrow> stuff q x = (x, q)"
  by (simp add: stuff_def)

lemma stuff_fst:
  assumes "fifo_wf q" "0 < m_size q"
  shows "fst (stuff q x) = hd (fifo_contents q)"
proof -
  from assms have "m_position q < length (m_fifo q)"
    by (auto simp: fifo_wf_def)
  then show ?thesis
    using assms by (simp add: stuff_def fifo_contents_def hd_append hd_drop_conv_nth)
qed

lemma stuff_contents:
  assumes "fifo_wf q" "0 < m_size q"
  shows "fifo_contents (snd (stuff q x)) = tl (fifo_contents q) @ [x]"
proof -
  let ?p = "m_position q" and ?b = "m_fifo q"
  from assms have p: "?p < length ?b" and len: "length ?b = m_size q"
    by (auto simp: fifo_wf_def)
  have tl: "tl (fifo_contents q) = drop (Suc ?p) ?b @ take ?p ?b"
    using p by (simp add: fifo_contents_def drop_Suc tl_drop flip: Cons_nth_drop_Suc)
  show ?thesis
  proof (cases "m_size q \<le> ?p + 1")
    case True
    with p len have "Suc ?p = length ?b" by simp
    then have "drop (Suc ?p) ?b = []" and "?b[?p := x] = take ?p ?b @ [x]"
      using p by (simp_all add: upd_conv_take_nth_drop)
    with True assms tl show ?thesis
      by (simp add: stuff_def fifo_contents_def)
  next
    case False
    with assms tl p show ?thesis
      by (simp add: stuff_def fifo_contents_def take_Suc_conv_app_nth)
  qed
qed

lemma stuff_all_contents:
  assumes "fifo_wf q" "0 < m_size q"
  shows "fst (stuff_all q ds) = take (length ds) (fifo_contents q @ ds)"
  using assms
proof (induction ds arbitrary: q)
  case Nil
  then show ?case by simp
next
  case (Cons d ds)
  let ?q1 = "snd (stuff q d)"
  have wf1: "fifo_wf ?q1" and sz1: "0 < m_size ?q1"
    using Cons.prems by (simp_all add: fifo_wf_stuff)
  have ne: "fifo_contents q \<noteq> []"
    using Cons.prems length_fifo_contents [of q] by auto
  have "fst (stuff_all q (d # ds)) = fst (stuff q d) # fst (stuff_all ?q1 ds)"
    by (simp split: prod.splits)
  also have "\<dots> = hd (fifo_contents q) # take (length ds) (tl (fifo_contents q) @ [d] @ ds)"
    using Cons.IH [OF wf1 sz1] Cons.prems by (simp add: stuff_fst stuff_contents)
  also have "\<dots> = take (length (d # ds)) (fifo_contents q @ d # ds)"
    using ne by (cases "fifo_contents q") simp_all
  finally show ?case .
qed

lemma stuff_all_empty: "m_size q = 0 \<Longrightarrow> stuff_all q ds = (ds, q)"
  by (induction ds) (simp_all add: stuff_empty)

lemma stuff_all_reset:
  "fst (stuff_all (fifo_reset q) ds) = take (length ds) (replicate (m_size q) 0 @ ds)"
proof (cases "m_size q = 0")
  case True
  then show ?thesis by (simp add: stuff_all_empty)
next
  case False
  then show ?thesis
    using stuff_all_contents [of "fifo_reset q" ds] by simp
qed

text \<open>
  C5. A queue of capacity \<open>C\<close> in its reset state, fed \<open>n > C\<close> dibits, returns the initial
  fill value 0 for its first \<open>C\<close> outputs, and from then on output \<open>i + C\<close> is input \<open>i\<close>
  (positions counted from 0 here): first in, first out, with the slots reused.
\<close>

theorem stuff_fifo_delay:
  assumes "m_size q < length ds"
  shows "length (fst (stuff_all (fifo_reset q) ds)) = length ds
       \<and> (\<forall>i < m_size q. fst (stuff_all (fifo_reset q) ds) ! i = 0)
       \<and> (\<forall>i < length ds - m_size q.
            fst (stuff_all (fifo_reset q) ds) ! (i + m_size q) = ds ! i)"
  using assms by (simp add: stuff_all_reset nth_append)

theorem stuff_fifo_delay_witness:
  "m_size (interleaver_fifo 2) < length [1, 2, 3 :: byte]
   \<and> fst (stuff_all (fifo_reset (interleaver_fifo 2)) [1, 2, 3]) = [0, 0, 1]"
  using stuff_fifo_delay [of "interleaver_fifo 2" "[1, 2, 3]"]
  by (simp add: interleaver_fifo_def fifo_reset_def stuff_def)

section \<open>The symbol demultiplexer\<close>

lemma sample_index_eq:
  "sample_index env i encoder k = i * ATSC_DATA_SEGMENT_LENGTH + enco_which_syms env encoder k"
  by (simp add: sample_index_def ATSC_DATA_SEGMENT_LENGTH_def algebra_simps)

lemma build_symbols_nth:
  "encoder < NCODERS \<Longrightarrow> k < enco_which_max env \<Longrightarrow>
   build_symbols env inb i ! encoder ! k = inb (sample_index env i encoder k)"
  by (simp add: build_symbols_def)

lemma build_symbols_length:
  "length (build_symbols env inb i) = NCODERS"
  "encoder < NCODERS \<Longrightarrow> length (build_symbols env inb i ! encoder) = enco_which_max env"
  by (simp_all add: build_symbols_def)

text \<open>
  C8. For the batch starting at segment \<open>i\<close>, every encoder \<open>e < 12\<close> and slot
  \<open>k < K\<close>: \<open>symbols[e][k]\<close> is the sample of the batch input at the offset the
  interleave table gives, the buffer has twelve rows of \<open>K\<close> symbols, and the offset lies
  inside the batch. The table is a parameter here; that its entry
  is below 12 * 832 is the hypothesis under which the read stays in the batch. The
  gather is a function of the input alone.
\<close>

theorem build_symbols_gather:
  assumes "encoder < NCODERS" and "k < enco_which_max env"
    and "enco_which_syms env encoder k < NCODERS * ATSC_DATA_SEGMENT_LENGTH"
  shows "length (build_symbols env inb i) = NCODERS
       \<and> length (build_symbols env inb i ! encoder) = enco_which_max env
       \<and> enco_which_syms env encoder k < length (batch_input inb i)
       \<and> build_symbols env inb i ! encoder ! k
           = batch_input inb i ! enco_which_syms env encoder k"
  using assms
  by (simp add: build_symbols_nth build_symbols_length sample_index_eq batch_input_def
        algebra_simps)

theorem build_symbols_gather_witness:
  "(3::nat) < NCODERS \<and> (5::nat) < enco_which_max test_env
   \<and> enco_which_syms test_env 3 5 = 67
   \<and> enco_which_syms test_env 3 5 < NCODERS * ATSC_DATA_SEGMENT_LENGTH
   \<and> build_symbols test_env of_nat 12 ! 3 ! 5 = batch_input of_nat 12 ! 67"
  using build_symbols_gather [of 3 5 test_env of_nat 12]
  by (simp add: NCODERS_def ATSC_DATA_SEGMENT_LENGTH_def test_env_def)

section \<open>The dibit packer\<close>

lemma and_7_eq_mod: "(b::nat) AND 7 = b mod 8"
  using take_bit_eq_mod [of 3 b] take_bit_eq_mask [of 3 b]
  by (simp add: mask_eq_exp_minus_1)

lemma bit_below_4:
  fixes w :: "'a::len word"
  assumes "w < 2 ^ 2" and "bit w m"
  shows "m < 2"
proof -
  have "take_bit 2 w = w"
    using assms(1) by (simp add: take_bit_eq_mask less_mask_eq)
  with assms(2) have "bit (take_bit 2 w) m" by (simp only:)
  then show ?thesis by (simp only: bit_take_bit_iff)
qed

lemma bit_3_int: "bit (3 :: int) m \<longleftrightarrow> m < 2"
proof -
  have "bit (mask 2 :: int) m \<longleftrightarrow> m < 2" by (simp add: bit_mask_iff)
  also have "mask 2 = (3::int)" by (simp add: mask_eq_exp_minus_1)
  finally show ?thesis .
qed

lemma dibit_bits:
  assumes "(d :: byte) \<le> 3"
  shows "bit d m \<longleftrightarrow> m < 2 \<and> bit d m"
proof -
  have "d < 2 ^ 2" using assms by (simp add: word_le_nat_alt word_less_nat_alt)
  then show ?thesis using bit_below_4 by blast
qed

lemma dibit_and_3:
  assumes "(d :: byte) \<le> 3"
  shows "d AND 3 = d"
proof -
  have "d < 2 ^ 2" using assms by (simp add: word_le_nat_alt word_less_nat_alt)
  then have "d AND mask 2 = d" by (rule less_mask_eq)
  moreover have "mask 2 = (3 :: byte)" by (simp add: mask_eq_exp_minus_1)
  ultimately show ?thesis by simp
qed

lemma and_3_dibit: "(x :: byte) AND 3 \<le> 3"
  by (rule word_and_le1)

lemma store_dibit_other: "b \<noteq> dbwhere div 8 \<Longrightarrow> store_dibit oc dbwhere d b = oc b"
  by (simp add: store_dibit_def Let_def drop_bit_eq_div)

lemma store_dibit_value:
  "store_dibit oc dbwhere d (dbwhere div 8) =
     ucast (((ucast (oc (dbwhere div 8)) :: 32 word) AND NOT (push_bit (dbwhere mod 8) 3))
              OR push_bit (dbwhere mod 8) (ucast d :: 32 word))"
  by (simp add: store_dibit_def Let_def drop_bit_eq_div and_7_eq_mod)

lemma store_dibit_bit:
  assumes "d \<le> 3" and "n < 8"
  shows "bit (store_dibit oc dbwhere d (dbwhere div 8)) n =
         (if n = dbwhere mod 8 \<or> n = dbwhere mod 8 + 1 then bit d (n - dbwhere mod 8)
          else bit (oc (dbwhere div 8)) n)"
proof -
  have d: "\<And>m. bit d m \<longleftrightarrow> m < 2 \<and> bit d m"
    using dibit_bits [OF assms(1)] .
  show ?thesis
    using assms(2)
    apply (simp add: store_dibit_value bit_simps bit_3_int)
    apply (subst d)
    apply auto
    done
qed

text \<open>
  One step of the packer, for the slot whose output bit offset is \<open>b = dbw k\<close>: the fifo
  takes the decoded dibit and returns the delayed one, \<open>r\<close>; the byte at index \<open>b div 8\<close>
  becomes \<open>(old & ~(3 << s)) | (r << s)\<close> with \<open>s = b mod 8\<close>, and no other byte changes.
\<close>

lemma pack_step_store:
  "fst (pack_step dbw k q oc d) = snd (stuff q d)"
  "snd (pack_step dbw k q oc d) (dbw k div 8)
     = ucast (((ucast (oc (dbw k div 8)) :: 32 word) AND NOT (push_bit (dbw k mod 8) 3))
                OR push_bit (dbw k mod 8) (ucast (fst (stuff q d)) :: 32 word))"
  "b \<noteq> dbw k div 8 \<Longrightarrow> snd (pack_step dbw k q oc d) b = oc b"
  by (simp_all add: pack_step_def split_beta store_dibit_value store_dibit_other)

section \<open>The batch size assertion\<close>

lemma smod_NCODERS: "(n :: int) smod int NCODERS = 0 \<longleftrightarrow> 12 dvd n"
  by (cases "n = 0"; cases "n < 0")
    (auto simp add: NCODERS_def signed_modulo_int_def dvd_eq_mod_eq_0 zmod_zminus1_eq_if)

text \<open>
  C10. A call whose \<open>noutput_items\<close> is not a multiple of 12 fails the assertion, and
  nothing is decoded: decoders, fifos, output and tags are as they were. (The assertion
  is taken as compiled in.)
\<close>

theorem work_rejects_partial_batch:
  assumes "\<not> 12 dvd noutput_items a"
  shows "work env a st = (Inl assertion_failed, st)"
  using assms by (simp add: work_def smod_NCODERS)

theorem work_rejects_partial_batch_witness:
  "\<not> 12 dvd noutput_items (test_args 13 0 [])
   \<and> work test_env (test_args 13 0 []) test_block = (Inl assertion_failed, test_block)"
  using work_rejects_partial_batch [of "test_args 13 0 []" test_env test_block]
  by (simp add: test_args_def)

section \<open>The copy loop and the loop over the batches\<close>

lemma copy_segments_end: "NCODERS \<le> j \<Longrightarrow> copy_segments env a oc i j st = (None, st)"
  by (subst copy_segments.simps) simp

lemma copy_segments_throw:
  "j < NCODERS \<Longrightarrow> in_tag_at a (i + j) = [] \<Longrightarrow>
   copy_segments env a oc i j st = (Some (runtime_error ''No plinfo on tag''), st)"
  by (subst copy_segments.simps) (simp add: in_tag_at_def)

lemma copy_segments_step:
  "j < NCODERS \<Longrightarrow> in_tag_at a (i + j) \<noteq> [] \<Longrightarrow>
   copy_segments env a oc i j st = copy_segments env a oc i (Suc j) (seg_done env a oc i j st)"
  by (subst copy_segments.simps)
    (simp add: in_tag_at_def seg_done_def out_tag_def add_item_tag_def Let_def
      add.assoc split: list.splits)

lemma dom_memcpy: "dom (memcpy dst d src s n) = dom dst \<union> {b. d \<le> b \<and> b < d + n}"
  by (auto simp: memcpy_def dom_def)

lemma seg_done_simps [simp]:
  "viterbi (seg_done env a oc i j st) = viterbi st"
  "fifo (seg_done env a oc i j st) = fifo st"
  "out_tags (seg_done env a oc i j st) = out_tags st @ [out_tag env a (i + j)]"
  "dom (out (seg_done env a oc i j st)) = dom (out st) \<union> seg_bytes env (i * NCODERS + j)"
  by (simp_all add: seg_done_def dom_memcpy seg_bytes_def)

text \<open>The copy loop never touches the decoders or the fifos.\<close>

lemma copy_segments_members:
  "viterbi (snd (copy_segments env a oc i j st)) = viterbi st
   \<and> fifo (snd (copy_segments env a oc i j st)) = fifo st"
proof (induction "NCODERS - j" arbitrary: j st)
  case 0
  then show ?case by (simp add: copy_segments_end)
next
  case (Suc d)
  then have j: "j < NCODERS" and d: "d = NCODERS - Suc j" by simp_all
  show ?case
  proof (cases "in_tag_at a (i + j) = []")
    case True
    with j show ?thesis by (simp add: copy_segments_throw)
  next
    case False
    with j Suc.hyps(1) [OF d] show ?thesis by (simp add: copy_segments_step)
  qed
qed

text \<open>
  The copy loop from \<open>j\<close>, when the positions \<open>i + j, \<dots>, i + m - 1\<close> are tagged and
  either \<open>m = NCODERS\<close> or position \<open>i + m\<close> is not.
\<close>

lemma copy_segments_run:
  assumes "j \<le> m" and "m \<le> NCODERS"
    and "\<forall>j'. j \<le> j' \<and> j' < m \<longrightarrow> in_tag_at a (i + j') \<noteq> []"
    and "m < NCODERS \<longrightarrow> in_tag_at a (i + m) = []"
  shows "fst (copy_segments env a oc i j st)
           = (if m < NCODERS then Some (runtime_error ''No plinfo on tag'') else None)
       \<and> out_tags (snd (copy_segments env a oc i j st))
           = out_tags st @ map (out_tag env a) [i + j ..< i + m]
       \<and> dom (out (snd (copy_segments env a oc i j st)))
           = dom (out st) \<union> (\<Union>j' \<in> {j ..< m}. seg_bytes env (i * NCODERS + j'))"
  using assms
proof (induction "m - j" arbitrary: j st)
  case 0
  then have "j = m" by simp
  show ?case
  proof (cases "m < NCODERS")
    case True
    with 0 \<open>j = m\<close> show ?thesis by (simp add: copy_segments_throw)
  next
    case False
    with 0 \<open>j = m\<close> show ?thesis by (simp add: copy_segments_end)
  qed
next
  case (Suc d)
  then have j: "j < m" "j < NCODERS" and tag: "in_tag_at a (i + j) \<noteq> []" by auto
  let ?st = "seg_done env a oc i j st"
  have step: "copy_segments env a oc i j st = copy_segments env a oc i (Suc j) ?st"
    using j(2) tag by (rule copy_segments_step)
  have IH: "fst (copy_segments env a oc i (Suc j) ?st)
           = (if m < NCODERS then Some (runtime_error ''No plinfo on tag'') else None)
       \<and> out_tags (snd (copy_segments env a oc i (Suc j) ?st))
           = out_tags ?st @ map (out_tag env a) [i + Suc j ..< i + m]
       \<and> dom (out (snd (copy_segments env a oc i (Suc j) ?st)))
           = dom (out ?st) \<union> (\<Union>j' \<in> {Suc j ..< m}. seg_bytes env (i * NCODERS + j'))"
    using Suc.prems Suc.hyps(2) j by (intro Suc.hyps(1)) auto
  have l: "[i + j ..< i + m] = (i + j) # [i + Suc j ..< i + m]"
    using j by (simp add: upt_conv_Cons)
  have s: "{j ..< m} = insert j {Suc j ..< m}"
    using j by auto
  show ?case
    unfolding step using IH by (simp add: l s Un_assoc)
qed

lemma out_segment_batch:
  "NCODERS dvd i \<Longrightarrow> j < NCODERS \<Longrightarrow> out_segment (i + j) = i * NCODERS + j"
  by (auto simp: out_segment_def elim!: dvdE)

lemma batch_segments:
  assumes "NCODERS dvd i" and "k \<le> NCODERS"
  shows "(\<Union>j \<in> {0 ..< k}. S (i * NCODERS + j)) = (\<Union>p \<in> {i ..< i + k}. S (out_segment p))"
proof (intro set_eqI iffI)
  fix x
  assume "x \<in> (\<Union>j \<in> {0 ..< k}. S (i * NCODERS + j))"
  then obtain j where j: "j < k" "x \<in> S (i * NCODERS + j)" by auto
  then have "x \<in> S (out_segment (i + j))"
    using assms by (simp add: out_segment_batch)
  with j(1) show "x \<in> (\<Union>p \<in> {i ..< i + k}. S (out_segment p))"
    by (intro UN_I [of "i + j"]) simp_all
next
  fix x
  assume "x \<in> (\<Union>p \<in> {i ..< i + k}. S (out_segment p))"
  then obtain p where p: "i \<le> p" "p < i + k" "x \<in> S (out_segment p)" by auto
  then have "out_segment p = i * NCODERS + (p - i)"
    using assms out_segment_batch [of i "p - i"] by simp
  with p show "x \<in> (\<Union>j \<in> {0 ..< k}. S (i * NCODERS + j))"
    by (intro UN_I [of "p - i"]) auto
qed

lemma decode_batch_keeps [simp]:
  "out (snd (decode_batch env inb i oc st)) = out st"
  "out_tags (snd (decode_batch env inb i oc st)) = out_tags st"
  by (simp_all add: decode_batch_def Let_def split: prod.splits)

lemma work_loop_end:
  "\<not> int i < noutput_items a \<Longrightarrow> work_loop env a i oc st = (Inr (noutput_items a), st)"
  by (subst work_loop.simps) simp

lemma work_loop_step:
  "int i < noutput_items a \<Longrightarrow>
   work_loop env a i oc st =
     (case copy_segments env a (fst (decode_batch env (inbuf a) i oc st)) i 0
             (snd (decode_batch env (inbuf a) i oc st)) of
        (Some e, st2) \<Rightarrow> (Inl e, st2)
      | (None, st2) \<Rightarrow>
          work_loop env a (i + NCODERS) (fst (decode_batch env (inbuf a) i oc st)) st2)"
  by (subst work_loop.simps) (auto split: prod.splits option.splits)

text \<open>
  The loop over the batches from \<open>i\<close>, when the positions \<open>i, \<dots>, m - 1\<close> are tagged and
  either \<open>m\<close> is the end of the call or position \<open>m\<close> is not tagged.
\<close>

lemma work_loop_run:
  assumes "NCODERS dvd i" and "NCODERS dvd n" and "noutput_items a = int n"
    and "i \<le> m" and "m \<le> n"
    and "\<forall>p. i \<le> p \<and> p < m \<longrightarrow> in_tag_at a p \<noteq> []"
    and "m < n \<longrightarrow> in_tag_at a m = []"
  shows "fst (work_loop env a i oc st)
           = (if m < n then Inl (runtime_error ''No plinfo on tag'') else Inr (int n))
       \<and> out_tags (snd (work_loop env a i oc st))
           = out_tags st @ map (out_tag env a) [i ..< m]
       \<and> dom (out (snd (work_loop env a i oc st)))
           = dom (out st) \<union> (\<Union>p \<in> {i ..< m}. seg_bytes env (out_segment p))"
  using assms
proof (induction "n - i" arbitrary: i oc st rule: less_induct)
  case less
  show ?case
  proof (cases "i < n")
    case False
    with less.prems have "m = i" "\<not> m < n" "\<not> int i < noutput_items a" by auto
    then show ?thesis using less.prems(3) by (simp add: work_loop_end)
  next
    case True
    with less.prems have lt: "int i < noutput_items a" by simp
    from True less.prems(1,2) have next_le: "i + NCODERS \<le> n"
      by (auto elim!: dvdE simp: NCODERS_def)
    define oc1 where "oc1 = fst (decode_batch env (inbuf a) i oc st)"
    define st1 where "st1 = snd (decode_batch env (inbuf a) i oc st)"
    define k where "k = min (m - i) NCODERS"
    have k: "0 \<le> k" "k \<le> NCODERS" by (simp_all add: k_def)
    have present: "\<forall>j'. 0 \<le> j' \<and> j' < k \<longrightarrow> in_tag_at a (i + j') \<noteq> []"
      using less.prems(6) by (auto simp: k_def)
    have missing: "k < NCODERS \<longrightarrow> in_tag_at a (i + k) = []"
      using less.prems(4,7) next_le by (auto simp: k_def min_def)
    note cs = copy_segments_run [OF k present missing, of env oc1 st1]
    have st1 [simp]: "out st1 = out st" "out_tags st1 = out_tags st"
      by (simp_all add: st1_def)
    have segs: "(\<Union>j \<in> {0 ..< k}. seg_bytes env (i * NCODERS + j))
                  = (\<Union>p \<in> {i ..< i + k}. seg_bytes env (out_segment p))"
      using less.prems(1) k(2) by (rule batch_segments)
    show ?thesis
    proof (cases "k < NCODERS")
      case True
      then have mk: "i + k = m" "m < n"
        using less.prems(4) next_le by (auto simp: k_def min_def split: if_splits)
      obtain st2 where r: "copy_segments env a oc1 i 0 st1
                             = (Some (runtime_error ''No plinfo on tag''), st2)"
        using cs True by (cases "copy_segments env a oc1 i 0 st1") auto
      show ?thesis
        using cs True mk segs
        by (simp add: work_loop_step [OF lt] r flip: oc1_def st1_def)
    next
      case False
      then have kk: "k = NCODERS" "i + NCODERS \<le> m"
        using k by (auto simp: k_def min_def NCODERS_def split: if_splits)
      obtain st2 where r: "copy_segments env a oc1 i 0 st1 = (None, st2)"
        using cs False by (cases "copy_segments env a oc1 i 0 st1") auto
      have IH: "fst (work_loop env a (i + NCODERS) oc1 st2)
           = (if m < n then Inl (runtime_error ''No plinfo on tag'') else Inr (int n))
       \<and> out_tags (snd (work_loop env a (i + NCODERS) oc1 st2))
           = out_tags st2 @ map (out_tag env a) [i + NCODERS ..< m]
       \<and> dom (out (snd (work_loop env a (i + NCODERS) oc1 st2)))
           = dom (out st2) \<union> (\<Union>p \<in> {i + NCODERS ..< m}. seg_bytes env (out_segment p))"
        using less.prems kk True by (intro less.hyps) (auto simp: NCODERS_def)
      have l: "[i ..< m] = [i ..< i + NCODERS] @ [i + NCODERS ..< m]"
        using kk upt_add_eq_append [of i "i + NCODERS" "m - (i + NCODERS)"] by simp
      have s: "{i ..< m} = {i ..< i + NCODERS} \<union> {i + NCODERS ..< m}"
        using kk by auto
      show ?thesis
        using cs kk segs IH
        by (simp add: work_loop_step [OF lt] r l s Un_assoc UN_Un flip: oc1_def st1_def)
    qed
  qed
qed

lemma work_run:
  assumes "noutput_items a = int n" and "12 dvd n" and "m \<le> n"
    and "\<forall>p < m. in_tag_at a p \<noteq> []"
    and "m < n \<longrightarrow> in_tag_at a m = []"
  shows "fst (work env a st)
           = (if m < n then Inl (runtime_error ''No plinfo on tag'') else Inr (int n))
       \<and> out_tags (snd (work env a st)) = out_tags st @ map (out_tag env a) [0 ..< m]
       \<and> dom (out (snd (work env a st)))
           = dom (out st) \<union> (\<Union>p \<in> {0 ..< m}. seg_bytes env (out_segment p))"
proof -
  have "(12::int) dvd int n"
    using assms(2) by presburger
  then have "work env a st = work_loop env a 0 (out_copy_init a) st"
    using assms(1) by (simp add: work_def smod_NCODERS)
  moreover have "NCODERS dvd 0" "NCODERS dvd n" "0 \<le> m"
    using assms(2) by (simp_all add: NCODERS_def)
  ultimately show ?thesis
    using work_loop_run [of 0 n a m env "out_copy_init a" st] assms by simp
qed

subsection \<open>The test bench\<close>

lemma test_in_tag_at:
  "in_tag_at (test_args n x (test_tags ps)) p \<noteq> [] \<longleftrightarrow> p \<in> set ps"
proof -
  have "in_tag_at (test_args n x (test_tags ps)) p \<noteq> []
          \<longleftrightarrow> (\<exists>q \<in> set ps. q < Suc p \<and> p \<le> q)"
    by (simp add: in_tag_at_def get_tags_in_window_def test_args_def test_tags_def
        filter_empty_conv)
  also have "\<dots> \<longleftrightarrow> p \<in> set ps"
    by (metis le_antisym less_Suc_eq_le order_refl)
  finally show ?thesis .
qed

lemma reset_keeps [simp]:
  "viterbi (reset st) = viterbi st" "out (reset st) = out st" "out_tags (reset st) = out_tags st"
  by (simp_all add: reset_def)

lemma constructed_output [simp]:
  "out (atsc_viterbi_decoder_impl env) = Map.empty"
  "out_tags (atsc_viterbi_decoder_impl env) = []"
  "viterbi (atsc_viterbi_decoder_impl env) = default_decoders env"
  by (simp_all add: atsc_viterbi_decoder_impl_def)

lemma test_in_tag_hd:
  assumes "p \<in> set ps"
  shows "hd (in_tag_at (test_args n x (test_tags ps)) p)
           = \<lparr>tag_offset = p, tag_key = tag_pmt, tag_value = of_nat p\<rparr>"
proof -
  let ?ts = "in_tag_at (test_args n x (test_tags ps)) p"
  have "?ts \<noteq> []" using assms by (simp add: test_in_tag_at)
  then have "hd ?ts \<in> set ?ts" by simp
  then obtain q where q: "hd ?ts = \<lparr>tag_offset = q, tag_key = tag_pmt, tag_value = of_nat q\<rparr>"
    and "p \<le> q" "q < Suc p"
    by (auto simp: in_tag_at_def get_tags_in_window_def test_args_def test_tags_def)
  then have "q = p" by simp
  with q show ?thesis by simp
qed

lemma test_in_tag_missing:
  "p \<notin> set ps \<Longrightarrow> in_tag_at (test_args n x (test_tags ps)) p = []"
  using test_in_tag_at [of n x ps p] by simp

lemma seg_bytes_test: "b \<in> seg_bytes test_env s \<longleftrightarrow> s * 207 \<le> b \<and> b < s * 207 + 207"
  by (simp add: seg_bytes_def test_env_def)

section \<open>Missing tags\<close>

lemma out_segment_first_batch: "p < NCODERS \<Longrightarrow> out_segment p = p"
  by (simp add: out_segment_def)

text \<open>
  C3, as the code has it. When position \<open>m\<close> is the first one of the call without a
  \<open>plinfo\<close> tag, the call ends with the exception \<open>No plinfo on tag\<close>, and no tag is
  made up for \<open>m\<close> or any later position. What was done before the exception stays: the
  delayed tag has been attached for exactly the positions before \<open>m\<close>, and the output
  segments of the positions of the first batch before \<open>m\<close> have been written (when \<open>m\<close>
  lies in the first batch, these and no others).
\<close>

theorem work_missing_tag:
  assumes "noutput_items a = int n" and "12 dvd n" and "m < n"
    and "in_tag_at a m = []" and "\<forall>p < m. in_tag_at a p \<noteq> []"
  shows "fst (work env a st) = Inl (runtime_error ''No plinfo on tag'')
       \<and> out_tags (snd (work env a st)) = out_tags st @ map (out_tag env a) [0 ..< m]
       \<and> (\<forall>p < min m 12. seg_bytes env p \<subseteq> dom (out (snd (work env a st))))
       \<and> (m < 12 \<longrightarrow> dom (out (snd (work env a st)))
                        = dom (out st) \<union> (\<Union>p \<in> {0 ..< m}. seg_bytes env p))"
proof -
  note r = work_run [of a n m env st]
  have dom: "dom (out (snd (work env a st)))
               = dom (out st) \<union> (\<Union>p \<in> {0 ..< m}. seg_bytes env (out_segment p))"
    using r assms by simp
  have "seg_bytes env p \<subseteq> dom (out (snd (work env a st)))" if "p < min m 12" for p
  proof -
    from that have "out_segment p = p" "p \<in> {0 ..< m}"
      by (simp_all add: out_segment_first_batch NCODERS_def)
    then show ?thesis unfolding dom by (metis UN_upper le_supI2)
  qed
  moreover have "(\<Union>p \<in> {0 ..< m}. seg_bytes env (out_segment p))
                   = (\<Union>p \<in> {0 ..< m}. seg_bytes env p)" if "m < 12"
    using that by (intro SUP_cong refl) (simp add: out_segment_first_batch NCODERS_def)
  ultimately show ?thesis
    using r assms dom by simp
qed

theorem work_missing_tag_witness:
  "noutput_items (test_args 12 1 (test_tags [0, 1, 3])) = int 12 \<and> 12 dvd (12::nat) \<and> (2::nat) < 12
   \<and> in_tag_at (test_args 12 1 (test_tags [0, 1, 3])) 2 = []
   \<and> fst (work test_env (test_args 12 1 (test_tags [0, 1, 3])) test_block)
       = Inl (runtime_error ''No plinfo on tag'')
   \<and> out_tags (snd (work test_env (test_args 12 1 (test_tags [0, 1, 3])) test_block))
       = map (out_tag test_env (test_args 12 1 (test_tags [0, 1, 3]))) [0 ..< 2]"
proof -
  let ?a = "test_args 12 1 (test_tags [0, 1, 3])"
  have n: "noutput_items ?a = int 12" by (simp add: test_args_def)
  have missing: "in_tag_at ?a 2 = []" by (rule test_in_tag_missing) simp
  have present: "\<forall>p < 2. in_tag_at ?a p \<noteq> []" by (auto simp: test_in_tag_at)
  have empty: "out_tags test_block = []" by (simp add: test_block_def)
  have d: "12 dvd (12::nat)" and lt: "(2::nat) < 12" by simp_all
  note w = work_missing_tag [OF n d lt missing present, of test_env test_block]
  have tags: "out_tags (snd (work test_env ?a test_block)) = map (out_tag test_env ?a) [0 ..< 2]"
    using w [THEN conjunct2, THEN conjunct1] by (simp only: empty append_Nil)
  show ?thesis
    by (intro conjI n d lt missing tags w [THEN conjunct1])
qed

text \<open>
  The claim that a call with a missing tag produces no partial output fails: with twelve
  segments of which only the one at position 1 has no tag, the call raises the exception
  after it has written segment 0 and attached a tag.
\<close>

theorem work_missing_tag_partial_output:
  "fst (work test_env (test_args 12 1 (test_tags [0, 2, 3, 4, 5, 6, 7, 8, 9, 10, 11])) test_block)
     = Inl (runtime_error ''No plinfo on tag'')
   \<and> out test_block 0 = None
   \<and> out (snd (work test_env (test_args 12 1 (test_tags [0, 2, 3, 4, 5, 6, 7, 8, 9, 10, 11]))
              test_block)) 0 \<noteq> None
   \<and> out_tags test_block = []
   \<and> out_tags (snd (work test_env (test_args 12 1 (test_tags [0, 2, 3, 4, 5, 6, 7, 8, 9, 10, 11]))
                   test_block)) \<noteq> []"
proof -
  let ?a = "test_args 12 1 (test_tags [0, 2, 3, 4, 5, 6, 7, 8, 9, 10, 11])"
  have n: "noutput_items ?a = int 12" by (simp add: test_args_def)
  have "in_tag_at ?a 1 = []" by (rule test_in_tag_missing) simp
  then have tags: "\<forall>p < 1. in_tag_at ?a p \<noteq> []" "1 < (12::nat) \<longrightarrow> in_tag_at ?a 1 = []"
    by (simp_all add: test_in_tag_at)
  note r = work_run [OF n _ _ tags, of test_env test_block]
  have "0 \<in> dom (out (snd (work test_env ?a test_block)))"
    using r by (simp add: seg_bytes_test out_segment_def)
  then show ?thesis
    using r by (auto simp: test_block_def)
qed

section \<open>Tag propagation\<close>

lemma in_tag_at_offset:
  assumes "in_tag_at a p \<noteq> []"
  shows "tag_offset (hd (in_tag_at a p)) = nitems_read a + p
       \<and> tag_key (hd (in_tag_at a p)) = tag_pmt \<and> hd (in_tag_at a p) \<in> set (in_tags a)"
proof -
  have "hd (in_tag_at a p) \<in> set (in_tag_at a p)" using assms by simp
  then show ?thesis
    by (auto simp: in_tag_at_def get_tags_in_window_def)
qed

text \<open>
  C6. In a call whose positions all carry a \<open>plinfo\<close> tag, exactly one tag is attached
  per position; the tag for position \<open>p\<close> sits at output position \<open>p\<close> (counted from
  \<open>nitems_written\<close>, as the input tag is counted from \<open>nitems_read\<close>) and carries the
  \<open>plinfo\<close> of the input tag delayed by \<open>NCODERS = 12\<close> segments: segment index
  \<open>s + 12\<close> modulo the segments-per-field count, field index advanced by the field
  boundaries crossed.
\<close>

theorem work_tags_delayed:
  assumes "noutput_items a = int n" and "12 dvd n"
    and "\<forall>q < n. in_tag_at a q \<noteq> []" and "p < n"
  shows "length (out_tags (snd (work env a st))) = length (out_tags st) + n
       \<and> tag_offset (hd (in_tag_at a p)) = nitems_read a + p
       \<and> out_tags (snd (work env a st)) ! (length (out_tags st) + p)
           = \<lparr>tag_offset = nitems_written a + p, tag_key = tag_pmt,
              tag_value = get_tag_value env (plinfo_delay env (in_plinfo env a p) NCODERS)\<rparr>
       \<and> segno (plinfo_delay env (in_plinfo env a p) NCODERS)
           = (segno (in_plinfo env a p) + 12) mod dsegs_per_field env
       \<and> field (plinfo_delay env (in_plinfo env a p) NCODERS)
           = (field (in_plinfo env a p) + (segno (in_plinfo env a p) + 12) div dsegs_per_field env)
               mod fields_per_frame env"
proof -
  have "out_tags (snd (work env a st)) = out_tags st @ map (out_tag env a) [0 ..< n]"
    using work_run [of a n n env st] assms(1-3) by simp
  moreover have "tag_offset (hd (in_tag_at a p)) = nitems_read a + p"
    using assms(3,4) by (simp add: in_tag_at_offset)
  ultimately show ?thesis
    using assms(4)
    by (simp add: nth_append out_tag_def in_plinfo_def plinfo_delay_def NCODERS_def)
qed

theorem work_tags_delayed_witness:
  "noutput_items (test_args 12 1 (test_tags [0 ..< 12])) = int 12 \<and> 12 dvd (12::nat)
   \<and> (3::nat) < 12
   \<and> segno (in_plinfo test_env (test_args 12 1 (test_tags [0 ..< 12])) 3) = 3
   \<and> out_tags (snd (work test_env (test_args 12 1 (test_tags [0 ..< 12])) test_block)) ! 3
       = \<lparr>tag_offset = 3, tag_key = tag_pmt, tag_value = 15\<rparr>"
proof -
  let ?a = "test_args 12 1 (test_tags [0 ..< 12])"
  have tags: "\<forall>q < 12. in_tag_at ?a q \<noteq> []"
    by (simp add: test_in_tag_at)
  have pli: "in_plinfo test_env ?a 3 = \<lparr>segno = 3, field = 0, field_sync = False\<rparr>"
    by (simp add: in_plinfo_def test_in_tag_hd test_env_def)
  have a: "noutput_items ?a = int 12" "nitems_written ?a = 0"
    by (simp_all add: test_args_def)
  show ?thesis
    using work_tags_delayed [OF a(1) _ tags, of 3 test_env test_block]
    by (simp add: pli a tags test_block_def plinfo_delay_def NCODERS_def)
      (simp add: test_env_def)
qed

section \<open>Where the output segments are written\<close>

text \<open>
  C1 asks that the segment decoded for position \<open>i + j\<close> be written at output position
  \<open>i + j\<close>. The copy loop addresses \<open>i * NCODERS + j\<close> instead, which is the same segment
  only in the first batch. In a call with 24 tagged segments, which returns 24, output
  segment 12 is never written, while bytes are written at segment 144, beyond the 24
  segments of the call.
\<close>

theorem work_misplaces_second_batch:
  "fst (work test_env (test_args 24 1 (test_tags [0 ..< 24])) test_block) = Inr 24
   \<and> out (snd (work test_env (test_args 24 1 (test_tags [0 ..< 24])) test_block)) (12 * 207) = None
   \<and> out (snd (work test_env (test_args 24 1 (test_tags [0 ..< 24])) test_block)) (144 * 207)
       \<noteq> None"
proof -
  let ?a = "test_args 24 1 (test_tags [0 ..< 24])"
  have n: "noutput_items ?a = int 24" by (simp add: test_args_def)
  have tags: "\<forall>p < 24. in_tag_at ?a p \<noteq> []" "24 < (24::nat) \<longrightarrow> in_tag_at ?a 24 = []"
    by (simp_all add: test_in_tag_at)
  note r = work_run [OF n _ _ tags, of test_env test_block]
  have dom: "dom (out (snd (work test_env ?a test_block)))
               = (\<Union>p \<in> {0 ..< 24}. seg_bytes test_env (out_segment p))"
    using r by (simp add: test_block_def)
  have "out_segment 12 = 144" by (simp add: out_segment_def NCODERS_def)
  then have "144 * 207 \<in> seg_bytes test_env (out_segment 12)"
    by (simp add: seg_bytes_test)
  then have there: "144 * 207 \<in> dom (out (snd (work test_env ?a test_block)))"
    unfolding dom by (intro UN_I [of 12]) simp_all
  have "out_segment p \<noteq> 12" for p
  proof (cases "p div 12")
    case 0
    moreover have "p mod 12 < 12" by simp
    ultimately show ?thesis by (simp add: out_segment_def NCODERS_def)
  next
    case (Suc q)
    then show ?thesis by (simp add: out_segment_def NCODERS_def)
  qed
  moreover have "s \<noteq> 12 \<Longrightarrow> 12 * 207 \<notin> seg_bytes test_env s" for s
    unfolding seg_bytes_test by linarith
  ultimately have "12 * 207 \<notin> seg_bytes test_env (out_segment p)" for p
    by blast
  then have "12 * 207 \<notin> dom (out (snd (work test_env ?a test_block)))"
    unfolding dom by blast
  with there r show ?thesis by auto
qed

section \<open>Reset and the capacity of the fifos\<close>

lemma reset_from_length [simp]: "length (reset_from i n fs) = length fs"
  by (induction n arbitrary: i fs) simp_all

lemma reset_from_nth:
  "e < length fs \<Longrightarrow>
   reset_from i n fs ! e = (if i \<le> e \<and> e < i + n then fifo_reset (fs ! e) else fs ! e)"
proof (induction n arbitrary: i fs)
  case 0
  then show ?case by auto
next
  case (Suc n)
  let ?fs = "fs[i := fifo_reset (fs ! i)]"
  have "reset_from i (Suc n) fs ! e
          = (if Suc i \<le> e \<and> e < Suc i + n then fifo_reset (?fs ! e) else ?fs ! e)"
    using Suc.IH [of ?fs "Suc i"] Suc.prems by simp
  also have "\<dots> = (if i \<le> e \<and> e < i + Suc n then fifo_reset (fs ! e) else fs ! e)"
    using Suc.prems by (cases "e = i") (auto simp: nth_list_update)
  finally show ?case .
qed

lemma fifo_reset_interleaver_fifo: "fifo_reset q = interleaver_fifo (m_size q)"
  by (simp add: interleaver_fifo_def fifo_reset_def)

lemma reset_sized:
  assumes "fifos_sized n (fifo st)"
  shows "fifo (reset st) = replicate NCODERS (interleaver_fifo n)"
proof (rule nth_equalityI)
  show "length (fifo (reset st)) = length (replicate NCODERS (interleaver_fifo n))"
    using assms by (simp add: reset_def fifos_sized_def)
next
  fix e
  assume "e < length (fifo (reset st))"
  then have e: "e < NCODERS" "e < length (fifo st)"
    using assms by (simp_all add: reset_def fifos_sized_def)
  then show "fifo (reset st) ! e = replicate NCODERS (interleaver_fifo n) ! e"
    using assms by (simp add: reset_def reset_from_nth fifos_sized_def fifo_reset_interleaver_fifo)
qed

lemma m_size_interleaver_fifo [simp]: "m_size (interleaver_fifo n) = n"
  by (simp add: interleaver_fifo_def)

lemma fifos_sized_replicate: "fifos_sized n (replicate NCODERS (interleaver_fifo n))"
  by (simp add: fifos_sized_def)

lemma constructed_fifo:
  "fifo (atsc_viterbi_decoder_impl env)
     = replicate NCODERS (interleaver_fifo (nat (fifo_size env (default_decoders env))))"
  unfolding atsc_viterbi_decoder_impl_def
  by (rule reset_sized) (simp add: fifos_sized_replicate)

lemma constructed_sized:
  "fifos_sized (nat (fifo_size env (default_decoders env)))
     (fifo (atsc_viterbi_decoder_impl env))"
  by (simp add: constructed_fifo fifos_sized_replicate)

lemma reset_keeps_sized: "fifos_sized n (fifo st) \<Longrightarrow> fifos_sized n (fifo (reset st))"
  by (simp add: reset_sized fifos_sized_replicate)

lemma pack_step_fifo: "fst (pack_step dbw k q oc d) = snd (stuff q d)"
  by (simp add: pack_step_def split_beta)

lemma pack_row_size: "m_size (fst (pack_row dbw k q oc ds)) = m_size q"
proof (induction ds arbitrary: k q oc)
  case Nil
  then show ?case by simp
next
  case (Cons d ds)
  have "m_size (fst (pack_step dbw k q oc d)) = m_size q"
    by (simp add: pack_step_fifo)
  with Cons show ?case
    by (simp add: split_beta)
qed

lemma pack_encoders_sizes:
  "length (fst (pack_encoders env e fs oc rows)) = length fs
   \<and> (\<forall>x. m_size (fst (pack_encoders env e fs oc rows) ! x) = m_size (fs ! x))"
proof (induction rows arbitrary: e fs oc)
  case Nil
  then show ?case by simp
next
  case (Cons row rows)
  let ?q = "fst (pack_row (enco_which_dibits env e) 0 (fs ! e) oc row)"
  have "m_size (fs[e := ?q] ! x) = m_size (fs ! x)" for x
    by (cases "e < length fs") (auto simp: nth_list_update pack_row_size list_update_beyond)
  with Cons show ?case
    by (simp add: split_beta)
qed

lemma decode_batch_sized:
  "fifos_sized n (fifo st) \<Longrightarrow> fifos_sized n (fifo (snd (decode_batch env inb i oc st)))"
  by (simp add: decode_batch_def Let_def split_beta fifos_sized_def pack_encoders_sizes)

lemma work_loop_sized:
  "fifos_sized n (fifo st) \<Longrightarrow> fifos_sized n (fifo (snd (work_loop env a i oc st)))"
proof (induction "nat (noutput_items a - int i)" arbitrary: i oc st rule: less_induct)
  case less
  show ?case
  proof (cases "int i < noutput_items a")
    case False
    with less.prems show ?thesis by (simp add: work_loop_end)
  next
    case True
    let ?oc1 = "fst (decode_batch env (inbuf a) i oc st)"
    let ?st1 = "snd (decode_batch env (inbuf a) i oc st)"
    let ?r = "copy_segments env a ?oc1 i 0 ?st1"
    have sized: "fifos_sized n (fifo (snd ?r))"
      using less.prems by (simp add: copy_segments_members decode_batch_sized)
    show ?thesis
    proof (cases "fst ?r")
      case None
      have "nat (noutput_items a - int (i + NCODERS)) < nat (noutput_items a - int i)"
        using True by (simp add: NCODERS_def)
      from less.hyps [OF this sized] None show ?thesis
        by (simp add: work_loop_step [OF True] split_beta)
    next
      case (Some err)
      with sized show ?thesis
        by (simp add: work_loop_step [OF True] split_beta)
    qed
  qed
qed

lemma work_sized: "fifos_sized n (fifo st) \<Longrightarrow> fifos_sized n (fifo (snd (work env a st)))"
  by (simp add: work_def work_loop_sized)

lemma run_calls_sized:
  "fifos_sized n (fifo st) \<Longrightarrow> fifos_sized n (fifo (run_calls env st cs))"
proof (induction cs arbitrary: st)
  case Nil
  then show ?case by simp
next
  case (Cons c cs)
  then show ?case
    by (cases c) (simp_all add: work_sized reset_keeps_sized)
qed

lemma decode_row_delay:
  assumes "\<forall>v x. delay env (snd (decode env v x)) = delay env v"
  shows "delay env (snd (decode_row (decode env) v xs)) = delay env v"
  using assms by (induction xs arbitrary: v) (simp_all add: split_beta)

lemma decode_batch_delay:
  assumes "\<forall>v x. delay env (snd (decode env v x)) = delay env v"
    and "decoders_delay env D (viterbi st)"
  shows "decoders_delay env D (viterbi (snd (decode_batch env inb i oc st)))"
  using assms(2)
  by (simp add: decode_batch_def Let_def split_beta run_decoders_def decoders_delay_def
      decode_row_delay [OF assms(1)])

lemma work_loop_delay:
  assumes "\<forall>v x. delay env (snd (decode env v x)) = delay env v"
  shows "decoders_delay env D (viterbi st) \<Longrightarrow>
         decoders_delay env D (viterbi (snd (work_loop env a i oc st)))"
proof (induction "nat (noutput_items a - int i)" arbitrary: i oc st rule: less_induct)
  case less
  show ?case
  proof (cases "int i < noutput_items a")
    case False
    with less.prems show ?thesis by (simp add: work_loop_end)
  next
    case True
    let ?oc1 = "fst (decode_batch env (inbuf a) i oc st)"
    let ?st1 = "snd (decode_batch env (inbuf a) i oc st)"
    let ?r = "copy_segments env a ?oc1 i 0 ?st1"
    have inv: "decoders_delay env D (viterbi (snd ?r))"
      using less.prems by (simp add: copy_segments_members decode_batch_delay [OF assms])
    show ?thesis
    proof (cases "fst ?r")
      case None
      have "nat (noutput_items a - int (i + NCODERS)) < nat (noutput_items a - int i)"
        using True by (simp add: NCODERS_def)
      from less.hyps [OF this inv] None show ?thesis
        by (simp add: work_loop_step [OF True] split_beta)
    next
      case (Some err)
      with inv show ?thesis
        by (simp add: work_loop_step [OF True] split_beta)
    qed
  qed
qed

lemma run_calls_delay:
  assumes "\<forall>v x. delay env (snd (decode env v x)) = delay env v"
  shows "decoders_delay env D (viterbi st) \<Longrightarrow>
         decoders_delay env D (viterbi (run_calls env st cs))"
proof (induction cs arbitrary: st)
  case Nil
  then show ?case by simp
next
  case (Cons c cs)
  then show ?case
    by (cases c) (simp_all add: work_def work_loop_delay [OF assms])
qed

lemma constructed_delay:
  "decoders_delay env (delay env (atsc_single_viterbi env))
     (viterbi (atsc_viterbi_decoder_impl env))"
  by (simp add: decoders_delay_def default_decoders_def)

text \<open>
  C4. Every fifo has capacity 832 - 4 - D, where D is the decode delay of the decoder it
  is paired with: the constructor sizes all twelve fifos from \<open>viterbi[0].delay()\<close>, and
  the twelve decoders are default-constructed alike. The capacity is fixed from there:
  in every state of the block's lifetime it is what the constructor made it, and, the
  decode delay of a decoder being fixed (\<open>decode\<close> does not change it), it is still
  832 - 4 - D for the delay D of the paired decoder in that state. (The delay is at most
  828, so that the size is not negative.)
\<close>

theorem fifo_capacity_fixed:
  assumes "\<forall>v x. delay env (snd (decode env v x)) = delay env v"
    and "delay env (atsc_single_viterbi env) \<le> 828" and "e < NCODERS"
  shows "int (m_size (fifo (atsc_viterbi_decoder_impl env) ! e))
           = 832 - 4 - delay env (viterbi (atsc_viterbi_decoder_impl env) ! e)
       \<and> m_size (fifo (run_calls env (atsc_viterbi_decoder_impl env) cs) ! e)
           = m_size (fifo (atsc_viterbi_decoder_impl env) ! e)
       \<and> int (m_size (fifo (run_calls env (atsc_viterbi_decoder_impl env) cs) ! e))
           = 832 - 4 - delay env (viterbi (run_calls env (atsc_viterbi_decoder_impl env) cs) ! e)"
proof -
  let ?n = "nat (fifo_size env (default_decoders env))"
  have n: "int ?n = 832 - 4 - delay env (atsc_single_viterbi env)"
    using assms(2)
    by (simp add: fifo_size_def default_decoders_def NCODERS_def ATSC_DATA_SEGMENT_LENGTH_def)
  have "fifos_sized ?n (fifo (atsc_viterbi_decoder_impl env))"
    and "fifos_sized ?n (fifo (run_calls env (atsc_viterbi_decoder_impl env) cs))"
    by (rule constructed_sized, rule run_calls_sized, rule constructed_sized)
  then have sizes: "m_size (fifo (atsc_viterbi_decoder_impl env) ! e) = ?n"
    "m_size (fifo (run_calls env (atsc_viterbi_decoder_impl env) cs) ! e) = ?n"
    using assms(3) by (simp_all add: fifos_sized_def)
  have "decoders_delay env (delay env (atsc_single_viterbi env))
          (viterbi (atsc_viterbi_decoder_impl env))"
    and "decoders_delay env (delay env (atsc_single_viterbi env))
          (viterbi (run_calls env (atsc_viterbi_decoder_impl env) cs))"
    by (rule constructed_delay, rule run_calls_delay [OF assms(1) constructed_delay])
  then have "delay env (viterbi (atsc_viterbi_decoder_impl env) ! e)
               = delay env (atsc_single_viterbi env)"
    and "delay env (viterbi (run_calls env (atsc_viterbi_decoder_impl env) cs) ! e)
               = delay env (atsc_single_viterbi env)"
    using assms(3) by (simp_all add: decoders_delay_def)
  with sizes n show ?thesis by simp
qed

theorem fifo_capacity_fixed_witness:
  "delay test_env (atsc_single_viterbi test_env) \<le> 828 \<and> (3::nat) < NCODERS
   \<and> delay test_env (viterbi (run_calls test_env (atsc_viterbi_decoder_impl test_env)
                                [Work (test_args 12 1 (test_tags [0 ..< 12])), Reset]) ! 3) = 1
   \<and> int (m_size (fifo (run_calls test_env (atsc_viterbi_decoder_impl test_env)
                           [Work (test_args 12 1 (test_tags [0 ..< 12])), Reset]) ! 3)) = 827"
proof -
  have fixed: "\<forall>v x. delay test_env (snd (decode test_env v x)) = delay test_env v"
    by (simp add: test_env_def fake_decode_def)
  have le: "delay test_env (atsc_single_viterbi test_env) \<le> 828" and e: "(3::nat) < NCODERS"
    by (simp_all add: test_env_def NCODERS_def)
  note w = fifo_capacity_fixed [OF fixed le e,
      of "[Work (test_args 12 1 (test_tags [0 ..< 12])), Reset]"]
  have d: "delay test_env (viterbi (atsc_viterbi_decoder_impl test_env) ! 3) = 1"
    by (simp add: default_decoders_def NCODERS_def) (simp add: test_env_def)
  from w d have c: "int (m_size (fifo (run_calls test_env (atsc_viterbi_decoder_impl test_env)
                           [Work (test_args 12 1 (test_tags [0 ..< 12])), Reset]) ! 3)) = 827"
    by simp
  with w have "delay test_env (viterbi (run_calls test_env (atsc_viterbi_decoder_impl test_env)
                                [Work (test_args 12 1 (test_tags [0 ..< 12])), Reset]) ! 3) = 1"
    by simp
  with le e c show ?thesis by simp
qed

section \<open>Reset\<close>

lemma decode_batch_viterbi:
  "viterbi (snd (decode_batch env inb i oc st))
     = map snd (run_decoders env (viterbi st) (build_symbols env inb i))"
  by (simp add: decode_batch_def Let_def split_beta)

lemma decode_batch_out_copy:
  "fst (decode_batch env inb i oc st)
     = snd (pack_encoders env 0 (fifo st) oc
              (map fst (run_decoders env (viterbi st) (build_symbols env inb i))))"
  by (simp add: decode_batch_def Let_def split_beta)

text \<open>A call with one batch of twelve tagged segments.\<close>

lemma work_one_batch:
  assumes "noutput_items a = 12" and "\<forall>p < 12. in_tag_at a p \<noteq> []"
  shows "work env a st
           = (Inr 12, snd (copy_segments env a
                (fst (decode_batch env (inbuf a) 0 (out_copy_init a) st)) 0 0
                (snd (decode_batch env (inbuf a) 0 (out_copy_init a) st))))"
proof -
  let ?oc1 = "fst (decode_batch env (inbuf a) 0 (out_copy_init a) st)"
  let ?st1 = "snd (decode_batch env (inbuf a) 0 (out_copy_init a) st)"
  have "fst (copy_segments env a ?oc1 0 0 ?st1) = None"
    using copy_segments_run [of 0 NCODERS a 0 env ?oc1 ?st1] assms(2)
    by (simp add: NCODERS_def)
  moreover have "work env a st = work_loop env a 0 (out_copy_init a) st"
    using assms(1) by (simp add: work_def smod_NCODERS)
  moreover have "int 0 < noutput_items a" "\<not> int (0 + NCODERS) < noutput_items a"
    using assms(1) by (simp_all add: NCODERS_def)
  ultimately show ?thesis
    using assms(1) by (simp add: work_loop_step work_loop_end split_beta)
qed

text \<open>The last segment of a batch, copied last, is in the output as \<open>out_copy\<close> had it.\<close>

lemma copy_segments_last:
  assumes "j < NCODERS" and "\<forall>j'. j \<le> j' \<and> j' < NCODERS \<longrightarrow> in_tag_at a (i + j') \<noteq> []"
    and "b < ATSC_MPEG_RS_ENCODED_LENGTH env"
  shows "out (snd (copy_segments env a oc i j st))
           ((i * NCODERS + (NCODERS - 1)) * ATSC_MPEG_RS_ENCODED_LENGTH env + b)
         = Some (oc ((NCODERS - 1) * OUTPUT_SIZE env div NCODERS + b))"
  using assms(1,2)
proof (induction "NCODERS - j" arbitrary: j st)
  case 0
  then show ?case by simp
next
  case (Suc d)
  then have tag: "in_tag_at a (i + j) \<noteq> []" by simp
  note step = copy_segments_step [OF Suc.prems(1) tag]
  show ?case
  proof (cases "Suc j < NCODERS")
    case True
    then show ?thesis
      using Suc.hyps(1) [of "Suc j"] Suc.hyps(2) Suc.prems(2) by (simp add: step)
  next
    case False
    with Suc.prems(1) have j: "j = NCODERS - 1" "NCODERS \<le> Suc j" by simp_all
    have "out (seg_done env a oc i j st)
            ((i * NCODERS + j) * ATSC_MPEG_RS_ENCODED_LENGTH env + b)
          = Some (oc (j * OUTPUT_SIZE env div NCODERS + b))"
      using assms(3) by (simp add: seg_done_def memcpy_def)
    moreover have "copy_segments env a oc i j st = (None, seg_done env a oc i j st)"
      unfolding step by (rule copy_segments_end [OF j(2)])
    moreover have "NCODERS - 1 = j" by (simp add: j(1))
    ultimately show ?thesis by (simp only: snd_conv)
  qed
qed

subsection \<open>The last dibit packed in a batch\<close>

lemma stuff_all_snoc:
  "stuff_all q (xs @ [d])
     = (fst (stuff_all q xs) @ [fst (stuff (snd (stuff_all q xs)) d)],
        snd (stuff (snd (stuff_all q xs)) d))"
  by (induction xs arbitrary: q) (simp_all add: split_beta)

lemma pack_row_fifo: "fst (pack_row dbw k q oc ds) = snd (stuff_all q ds)"
  by (induction ds arbitrary: k q oc) (simp_all add: split_beta pack_step_fifo)

lemma pack_row_snoc:
  "pack_row dbw k q oc (ds @ [d])
     = pack_step dbw (k + length ds) (fst (pack_row dbw k q oc ds))
         (snd (pack_row dbw k q oc ds)) d"
  by (induction ds arbitrary: k q oc) (simp_all add: split_beta)

lemma pack_encoders_untouched:
  "e + length rows \<le> x \<Longrightarrow> fst (pack_encoders env e fs oc rows) ! x = fs ! x"
  by (induction rows arbitrary: e fs oc) (simp_all add: split_beta)

lemma pack_encoders_snoc:
  "snd (pack_encoders env e fs oc (rows @ [row]))
     = snd (pack_row (enco_which_dibits env (e + length rows)) 0
              (fst (pack_encoders env e fs oc rows) ! (e + length rows))
              (snd (pack_encoders env e fs oc rows)) row)"
  by (induction rows arbitrary: e fs oc) (simp_all add: split_beta)

lemma pack_encoders_last_bit:
  assumes "row \<noteq> []"
    and "last (fst (stuff_all (fs ! length rows) row)) \<le> 3"
    and "enco_which_dibits env (length rows) (length row - 1) = b"
    and "n < 8"
  shows "bit (snd (pack_encoders env 0 fs oc (rows @ [row])) (b div 8)) n
         = (if n = b mod 8 \<or> n = b mod 8 + 1
            then bit (last (fst (stuff_all (fs ! length rows) row))) (n - b mod 8)
            else bit (snd (pack_row (enco_which_dibits env (length rows)) 0 (fs ! length rows)
                             (snd (pack_encoders env 0 fs oc rows)) (butlast row)) (b div 8)) n)"
proof -
  let ?dbw = "enco_which_dibits env (length rows)"
  let ?q = "fs ! length rows"
  let ?oc = "snd (pack_encoders env 0 fs oc rows)"
  let ?ds = "butlast row" and ?d = "last row"
  have row: "row = ?ds @ [?d]" using assms(1) by simp
  have len: "length ?ds = length row - 1" by simp
  let ?r = "fst (stuff (snd (stuff_all ?q ?ds)) ?d)"
  have r: "last (fst (stuff_all ?q row)) = ?r"
    by (subst row) (simp add: stuff_all_snoc)
  have "snd (pack_encoders env 0 fs oc (rows @ [row])) = snd (pack_row ?dbw 0 ?q ?oc row)"
    by (simp add: pack_encoders_snoc pack_encoders_untouched)
  also have "\<dots> = snd (pack_step ?dbw (length ?ds) (fst (pack_row ?dbw 0 ?q ?oc ?ds))
                        (snd (pack_row ?dbw 0 ?q ?oc ?ds)) ?d)"
    by (subst row) (simp add: pack_row_snoc)
  also have "\<dots> = store_dibit (snd (pack_row ?dbw 0 ?q ?oc ?ds)) b ?r"
    using assms(3) by (simp add: pack_step_def split_beta pack_row_fifo)
  finally show ?thesis
    using assms(2,4) by (simp add: r store_dibit_bit)
qed

subsection \<open>Runs of the test bench\<close>

lemma decode_row_length: "length (fst (decode_row dec v xs)) = length xs"
  by (induction xs arbitrary: v) (simp_all add: split_beta)

lemma decode_row_first:
  "fst (decode_row dec v (x # xs)) ! 0 = fst (dec v x)"
  by (simp add: split_beta)

lemma fake_decode_final:
  "snd (decode_row fake_decode [v] xs) = [last (v # map (\<lambda>x. x AND 3) xs)]"
  by (induction xs arbitrary: v) (simp_all add: split_beta fake_decode_def)

lemma test_symbols:
  "build_symbols test_env (\<lambda>_. x) i = replicate NCODERS (replicate 828 x)"
  by (simp add: build_symbols_def test_env_def map_replicate_const)

lemma test_env_simps [simp]:
  "atsc_single_viterbi test_env = [0]"
  "decode test_env = fake_decode"
  "delay test_env buf = int (length buf)"
  "enco_which_max test_env = 828"
  "enco_which_dibits test_env e k = 8 * (k div 4 * 12 + e) + (6 - 2 * (k mod 4))"
  "ATSC_MPEG_RS_ENCODED_LENGTH test_env = 207"
  "OUTPUT_SIZE test_env = 2484"
  by (simp_all add: test_env_def)

lemma test_tags_present: "\<forall>p < 12. in_tag_at (test_args 12 x (test_tags [0 ..< 12])) p \<noteq> []"
  by (simp add: test_in_tag_at)

lemma interleaver_fifo_last:
  assumes "length ds = Suc n"
  shows "last (fst (stuff_all (interleaver_fifo n) ds)) = ds ! 0"
proof -
  have "fst (stuff_all (interleaver_fifo n) ds) = take (Suc n) (replicate n 0 @ ds)"
    using stuff_all_reset [of "interleaver_fifo n" ds] assms
    by (simp add: fifo_reset_interleaver_fifo)
  moreover have "take (Suc n) (replicate n 0 @ ds) = replicate n 0 @ [ds ! 0]"
    using assms by (cases ds) simp_all
  ultimately show ?thesis by simp
qed

text \<open>
  One batch on the test bench, from a state whose fifos are freshly reset: the low bit of
  the last output byte is the low bit of the dibit that decoder 11 held before the call.
\<close>

lemma test_run_last_bit:
  assumes "fifo X = replicate NCODERS (interleaver_fifo 827)" and "viterbi X ! 11 = [s]"
    and "s \<le> 3"
  shows "\<exists>w. out (snd (work test_env (test_args 12 x (test_tags [0 ..< 12])) X)) 2483 = Some w
            \<and> (bit w 0 \<longleftrightarrow> bit s 0)"
proof -
  let ?a = "test_args 12 x (test_tags [0 ..< 12])"
  let ?oc1 = "fst (decode_batch test_env (inbuf ?a) 0 (out_copy_init ?a) X)"
  let ?st1 = "snd (decode_batch test_env (inbuf ?a) 0 (out_copy_init ?a) X)"
  have n: "noutput_items ?a = 12" and inb: "inbuf ?a = (\<lambda>_. x)"
    by (simp_all add: test_args_def)
  have w: "work test_env ?a X = (Inr 12, snd (copy_segments test_env ?a ?oc1 0 0 ?st1))"
    by (rule work_one_batch [OF n test_tags_present])
  have "out (snd (copy_segments test_env ?a ?oc1 0 0 ?st1))
          ((0 * NCODERS + (NCODERS - 1)) * ATSC_MPEG_RS_ENCODED_LENGTH test_env + 206)
        = Some (?oc1 ((NCODERS - 1) * OUTPUT_SIZE test_env div NCODERS + 206))"
    by (rule copy_segments_last) (use test_tags_present [of x] in \<open>simp_all add: NCODERS_def\<close>)
  then have o: "out (snd (work test_env ?a X)) 2483 = Some (?oc1 2483)"
    by (simp add: w NCODERS_def)
  let ?f = "\<lambda>e. fst (decode_row fake_decode (viterbi X ! e) (replicate 828 x))"
  have "map fst (run_decoders test_env (viterbi X) (build_symbols test_env (\<lambda>_. x) 0))
          = map ?f [0 ..< 12]"
    by (auto simp: run_decoders_def test_symbols NCODERS_def)
  also have "[0 ..< 12] = [0 ..< 11] @ [11::nat]"
    using upt_Suc_append [of 0 11] by simp
  finally have rows: "map fst (run_decoders test_env (viterbi X)
                        (build_symbols test_env (\<lambda>_. x) 0)) = map ?f [0 ..< 11] @ [?f 11]"
    by simp
  have len: "length (?f 11) = 828" by (simp add: decode_row_length)
  then have ne: "?f 11 \<noteq> []" by auto
  have "replicate 828 x = x # replicate 827 x"
    using replicate_Suc [of 827 x] by simp
  then have "?f 11 ! 0 = fst (fake_decode [s] x)"
    using decode_row_first [of fake_decode "[s]" x "replicate 827 x"] assms(2) by simp
  then have first: "?f 11 ! 0 = s"
    using assms(3) by (simp add: fake_decode_def dibit_and_3)
  have q: "fifo X ! length (map ?f [0 ..< 11]) = interleaver_fifo 827"
    using assms(1) by (simp add: NCODERS_def)
  have r: "last (fst (stuff_all (fifo X ! length (map ?f [0 ..< 11])) (?f 11))) = s"
    unfolding q using interleaver_fifo_last [of "?f 11" 827] len first by simp
  have b: "enco_which_dibits test_env (length (map ?f [0 ..< 11])) (length (?f 11) - 1) = 19864"
    unfolding len by simp
  have "bit (snd (pack_encoders test_env 0 (fifo X) (out_copy_init ?a)
                (map ?f [0 ..< 11] @ [?f 11])) (19864 div 8)) 0
        = bit s 0"
    using pack_encoders_last_bit [where n = 0 and fs = "fifo X" and oc = "out_copy_init ?a",
        OF ne _ b] assms(3)
    unfolding r by simp
  then have "bit (?oc1 2483) 0 = bit s 0"
    by (simp add: decode_batch_out_copy inb rows)
  with o show ?thesis by blast
qed

text \<open>
  C2, as the code has it. \<open>reset\<close> restores the twelve fifos to what the constructor
  made them and leaves the decoders untouched: in any state of the block's lifetime,
  the state after \<open>reset\<close> is that state with freshly constructed fifos, and a call of
  \<open>work\<close> after \<open>reset\<close> gives what it gives from that state.
\<close>

theorem reset_clears_fifos_only:
  assumes "st = run_calls env (atsc_viterbi_decoder_impl env) cs"
  shows "viterbi (reset st) = viterbi st
       \<and> fifo (reset st) = fifo (atsc_viterbi_decoder_impl env)
       \<and> reset st = st\<lparr>fifo := fifo (atsc_viterbi_decoder_impl env)\<rparr>
       \<and> work env a (reset st) = work env a (st\<lparr>fifo := fifo (atsc_viterbi_decoder_impl env)\<rparr>)"
proof -
  have "fifos_sized (nat (fifo_size env (default_decoders env))) (fifo st)"
    unfolding assms by (rule run_calls_sized) (rule constructed_sized)
  then have f: "fifo (reset st) = fifo (atsc_viterbi_decoder_impl env)"
    by (simp add: reset_sized constructed_fifo)
  then have "reset st = st\<lparr>fifo := fifo (atsc_viterbi_decoder_impl env)\<rparr>"
    by (simp add: reset_def)
  with f show ?thesis by simp
qed

theorem reset_clears_fifos_only_witness:
  "viterbi (reset (run_calls test_env test_block [Work (test_args 12 1 (test_tags [0 ..< 12]))]))
     = viterbi (run_calls test_env test_block [Work (test_args 12 1 (test_tags [0 ..< 12]))])
   \<and> fifo (reset (run_calls test_env test_block [Work (test_args 12 1 (test_tags [0 ..< 12]))]))
       = fifo test_block"
  using reset_clears_fifos_only [OF refl, of test_env
      "[Work (test_args 12 1 (test_tags [0 ..< 12]))]"]
  by (simp add: test_block_def)

text \<open>
  The claim that \<open>reset\<close> returns the block to its state after construction fails: after
  one batch of samples of dibit 1 and a \<open>reset\<close>, decoder 11 still holds the dibit 1,
  where a new block holds 0, and a following batch of zero samples gives another last
  output byte than it gives on a new block.
\<close>

theorem reset_keeps_decoder_state:
  "viterbi (reset (snd (work test_env (test_args 12 1 (test_tags [0 ..< 12])) test_block))) ! 11
     = [1]
   \<and> viterbi test_block ! 11 = [0]
   \<and> out (snd (work test_env (test_args 12 0 (test_tags [0 ..< 12]))
              ((reset (snd (work test_env (test_args 12 1 (test_tags [0 ..< 12])) test_block)))
                 \<lparr>out := Map.empty, out_tags := []\<rparr>))) 2483
       \<noteq> out (snd (work test_env (test_args 12 0 (test_tags [0 ..< 12])) test_block)) 2483"
proof -
  let ?a1 = "test_args 12 1 (test_tags [0 ..< 12])"
  let ?a0 = "test_args 12 0 (test_tags [0 ..< 12])"
  let ?st1 = "snd (work test_env ?a1 test_block)"
  let ?X = "(reset ?st1)\<lparr>out := Map.empty, out_tags := []\<rparr>"
  have n: "noutput_items ?a1 = 12" and inb: "inbuf ?a1 = (\<lambda>_. 1)"
    by (simp_all add: test_args_def)
  have "viterbi ?st1 = map snd (run_decoders test_env (viterbi test_block)
                                  (build_symbols test_env (\<lambda>_. 1) 0))"
    by (simp add: work_one_batch [OF n test_tags_present] copy_segments_members
        decode_batch_viterbi inb)
  then have "viterbi ?st1 ! 11 = snd (decode_row fake_decode [0] (replicate 828 1))"
    by (simp add: run_decoders_def test_symbols NCODERS_def test_block_def default_decoders_def)
  then have v1: "viterbi ?st1 ! 11 = [1]"
    by (simp add: fake_decode_final)
  have v0: "viterbi test_block ! 11 = [0]"
    by (simp add: test_block_def default_decoders_def NCODERS_def)
  have size: "nat (fifo_size test_env (default_decoders test_env)) = 827"
    by (simp add: fifo_size_def ATSC_DATA_SEGMENT_LENGTH_def default_decoders_def NCODERS_def)
  have "fifos_sized 827 (fifo ?st1)"
    using work_sized [OF constructed_sized, of test_env test_env ?a1]
    by (simp add: size test_block_def)
  then have fX: "fifo ?X = replicate NCODERS (interleaver_fifo 827)"
    by (simp add: reset_sized)
  have f0: "fifo test_block = replicate NCODERS (interleaver_fifo 827)"
    by (simp add: test_block_def constructed_fifo size)
  obtain w where w: "out (snd (work test_env ?a0 ?X)) 2483 = Some w" "bit w 0 \<longleftrightarrow> bit (1::byte) 0"
    using test_run_last_bit [OF fX, of 1 0] v1 by auto
  obtain w' where w': "out (snd (work test_env ?a0 test_block)) 2483 = Some w'"
    "bit w' 0 \<longleftrightarrow> bit (0::byte) 0"
    using test_run_last_bit [OF f0 v0, of 0] by auto
  from w w' have "w \<noteq> w'" by auto
  with w w' v1 v0 show ?thesis by simp
qed

section \<open>The packer over a whole batch\<close>

lemma store_dibit_covers:
  assumes "r \<le> 3" and "n < 8"
  shows "bit (store_dibit oc b r a) n
           = (if covers b a n then bit r (n - b mod 8) else bit (oc a) n)"
proof (cases "a = b div 8")
  case True
  then show ?thesis
    using store_dibit_bit [OF assms, of oc b] by (simp add: covers_def)
next
  case False
  then show ?thesis by (simp add: covers_def store_dibit_other)
qed

lemma pack_row_Cons:
  "pack_row dbw k0 q oc (d # ds)
     = pack_row dbw (Suc k0) (snd (stuff q d)) (store_dibit oc (dbw k0) (fst (stuff q d))) ds"
  by (simp add: pack_step_def split_beta)

lemma stuff_all_Cons:
  "fst (stuff_all q (d # ds)) = fst (stuff q d) # fst (stuff_all (snd (stuff q d)) ds)"
  by (simp add: split_beta)

text \<open>A bit that no slot of the row covers is as it was.\<close>

lemma pack_row_keeps_bit:
  assumes "n < 8"
  shows "\<forall>r \<in> set (fst (stuff_all q ds)). r \<le> 3 \<Longrightarrow>
         \<forall>j < length ds. \<not> covers (dbw (k0 + j)) a n \<Longrightarrow>
         bit (snd (pack_row dbw k0 q oc ds) a) n = bit (oc a) n"
proof (induction ds arbitrary: k0 q oc)
  case Nil
  then show ?case by simp
next
  case (Cons d ds)
  have r: "fst (stuff q d) \<le> 3" and rs: "\<forall>r \<in> set (fst (stuff_all (snd (stuff q d)) ds)). r \<le> 3"
    using Cons.prems(1) by (simp_all add: split_beta)
  have here: "\<not> covers (dbw k0) a n"
    using Cons.prems(2) by fastforce
  have later: "\<forall>j < length ds. \<not> covers (dbw (Suc k0 + j)) a n"
    using Cons.prems(2) by fastforce
  show ?case
    unfolding pack_row_Cons
    using Cons.IH [OF rs later] here by (simp add: store_dibit_covers [OF r assms])
qed

text \<open>The bits of a slot that no later slot of the row covers hold its delayed dibit.\<close>

lemma pack_row_sets_bit:
  assumes "n < 8"
  shows "\<forall>r \<in> set (fst (stuff_all q ds)). r \<le> 3 \<Longrightarrow> j < length ds \<Longrightarrow>
         covers (dbw (k0 + j)) a n \<Longrightarrow>
         \<forall>j'. j < j' \<and> j' < length ds \<longrightarrow> \<not> covers (dbw (k0 + j')) a n \<Longrightarrow>
         bit (snd (pack_row dbw k0 q oc ds) a) n
           = bit (fst (stuff_all q ds) ! j) (n - dbw (k0 + j) mod 8)"
proof (induction ds arbitrary: k0 q oc j)
  case Nil
  then show ?case by simp
next
  case (Cons d ds)
  have r: "fst (stuff q d) \<le> 3" and rs: "\<forall>r \<in> set (fst (stuff_all (snd (stuff q d)) ds)). r \<le> 3"
    using Cons.prems(1) by (simp_all add: split_beta)
  show ?case
  proof (cases j)
    case 0
    have "\<forall>j' < length ds. \<not> covers (dbw (Suc k0 + j')) a n"
      using Cons.prems(4) 0 by fastforce
    from pack_row_keeps_bit [OF assms rs this] show ?thesis
      unfolding pack_row_Cons stuff_all_Cons
      using Cons.prems(3) 0 by (simp add: store_dibit_covers [OF r assms])
  next
    case (Suc j0)
    have "j0 < length ds" "covers (dbw (Suc k0 + j0)) a n"
      "\<forall>j'. j0 < j' \<and> j' < length ds \<longrightarrow> \<not> covers (dbw (Suc k0 + j')) a n"
      using Cons.prems(2,3,4) Suc by fastforce+
    from Cons.IH [OF rs this] show ?thesis
      unfolding pack_row_Cons stuff_all_Cons using Suc by simp
  qed
qed

lemma pack_encoders_Cons:
  "pack_encoders env e0 fs oc (row # rows)
     = pack_encoders env (Suc e0)
         (fs[e0 := fst (pack_row (enco_which_dibits env e0) 0 (fs ! e0) oc row)])
         (snd (pack_row (enco_which_dibits env e0) 0 (fs ! e0) oc row)) rows"
  by (simp add: split_beta)

lemma pack_encoders_keeps_bit:
  assumes "n < 8"
  shows "\<forall>x < length rows. \<forall>r \<in> set (fst (stuff_all (fs ! (e0 + x)) (rows ! x))). r \<le> 3 \<Longrightarrow>
         \<forall>x < length rows. \<forall>j < length (rows ! x).
            \<not> covers (enco_which_dibits env (e0 + x) j) a n \<Longrightarrow>
         bit (snd (pack_encoders env e0 fs oc rows) a) n = bit (oc a) n"
proof (induction rows arbitrary: e0 fs oc)
  case Nil
  then show ?case by simp
next
  case (Cons row rows)
  let ?fs = "fs[e0 := fst (pack_row (enco_which_dibits env e0) 0 (fs ! e0) oc row)]"
  have r0: "\<forall>r \<in> set (fst (stuff_all (fs ! e0) row)). r \<le> 3"
    using Cons.prems(1) by fastforce
  have c0: "\<forall>j < length row. \<not> covers (enco_which_dibits env e0 (0 + j)) a n"
    using Cons.prems(2) by fastforce
  have rs: "\<forall>x < length rows. \<forall>r \<in> set (fst (stuff_all (?fs ! (Suc e0 + x)) (rows ! x))). r \<le> 3"
    using Cons.prems(1) by fastforce
  have cs: "\<forall>x < length rows. \<forall>j < length (rows ! x).
              \<not> covers (enco_which_dibits env (Suc e0 + x) j) a n"
    using Cons.prems(2) by fastforce
  show ?case
    unfolding pack_encoders_Cons
    using Cons.IH [OF rs cs] pack_row_keeps_bit [OF assms r0 c0] by simp
qed

lemma pack_encoders_sets_bit:
  assumes "n < 8"
  shows "\<forall>x < length rows. \<forall>r \<in> set (fst (stuff_all (fs ! (e0 + x)) (rows ! x))). r \<le> 3 \<Longrightarrow>
         x < length rows \<Longrightarrow> j < length (rows ! x) \<Longrightarrow>
         covers (enco_which_dibits env (e0 + x) j) a n \<Longrightarrow>
         \<forall>j'. j < j' \<and> j' < length (rows ! x)
            \<longrightarrow> \<not> covers (enco_which_dibits env (e0 + x) j') a n \<Longrightarrow>
         \<forall>x' j'. x < x' \<and> x' < length rows \<and> j' < length (rows ! x')
            \<longrightarrow> \<not> covers (enco_which_dibits env (e0 + x') j') a n \<Longrightarrow>
         bit (snd (pack_encoders env e0 fs oc rows) a) n
           = bit (fst (stuff_all (fs ! (e0 + x)) (rows ! x)) ! j)
               (n - enco_which_dibits env (e0 + x) j mod 8)"
proof (induction rows arbitrary: e0 fs oc x)
  case Nil
  then show ?case by simp
next
  case (Cons row rows)
  let ?fs = "fs[e0 := fst (pack_row (enco_which_dibits env e0) 0 (fs ! e0) oc row)]"
  let ?oc = "snd (pack_row (enco_which_dibits env e0) 0 (fs ! e0) oc row)"
  have r0: "\<forall>r \<in> set (fst (stuff_all (fs ! e0) row)). r \<le> 3"
    using Cons.prems(1) by fastforce
  have rs: "\<forall>x < length rows. \<forall>r \<in> set (fst (stuff_all (?fs ! (Suc e0 + x)) (rows ! x))). r \<le> 3"
    using Cons.prems(1) by fastforce
  show ?case
  proof (cases x)
    case 0
    have cs: "\<forall>x < length rows. \<forall>j < length (rows ! x).
                \<not> covers (enco_which_dibits env (Suc e0 + x) j) a n"
      using Cons.prems(6) 0 by fastforce
    have "bit (?oc a) n = bit (fst (stuff_all (fs ! e0) row) ! j)
                            (n - enco_which_dibits env e0 (0 + j) mod 8)"
      by (rule pack_row_sets_bit [OF assms r0]) (use Cons.prems(3,4,5) 0 in simp_all)
    then show ?thesis
      unfolding pack_encoders_Cons
      using pack_encoders_keeps_bit [OF assms rs cs, of ?oc] 0 by simp
  next
    case (Suc x0)
    have "x0 < length rows" "j < length (rows ! x0)"
      "covers (enco_which_dibits env (Suc e0 + x0) j) a n"
      "\<forall>j'. j < j' \<and> j' < length (rows ! x0)
          \<longrightarrow> \<not> covers (enco_which_dibits env (Suc e0 + x0) j') a n"
      using Cons.prems(2,3,4,5) Suc by simp_all
    moreover have "\<forall>x' j'. x0 < x' \<and> x' < length rows \<and> j' < length (rows ! x')
            \<longrightarrow> \<not> covers (enco_which_dibits env (Suc e0 + x') j') a n"
      using Cons.prems(6) Suc by fastforce
    ultimately show ?thesis
      unfolding pack_encoders_Cons
      using Cons.IH [OF rs, of x0 ?oc] Suc by simp
  qed
qed

subsection \<open>The fifos of a block hold dibits\<close>

lemma stuff_dibits:
  assumes "fifo_dibits q" and "d \<le> 3"
  shows "fst (stuff q d) \<le> 3 \<and> fifo_dibits (snd (stuff q d))"
proof (cases "m_size q = 0")
  case True
  with assms show ?thesis by (simp add: stuff_def)
next
  case False
  with assms(1) have p: "m_position q < length (m_fifo q)"
    by (auto simp: fifo_dibits_def fifo_wf_def)
  then have "m_fifo q ! m_position q \<in> set (m_fifo q)" by simp
  moreover have "set ((m_fifo q)[m_position q := d]) \<subseteq> insert d (set (m_fifo q))"
    by (rule set_update_subset_insert)
  ultimately show ?thesis
    using assms False fifo_wf_stuff [of q d]
    by (auto simp: fifo_dibits_def stuff_def)
qed

lemma stuff_all_dibits:
  "fifo_dibits q \<Longrightarrow> \<forall>d \<in> set ds. d \<le> 3 \<Longrightarrow>
   (\<forall>r \<in> set (fst (stuff_all q ds)). r \<le> 3) \<and> fifo_dibits (snd (stuff_all q ds))"
proof (induction ds arbitrary: q)
  case Nil
  then show ?case by simp
next
  case (Cons d ds)
  from Cons.prems have "fst (stuff q d) \<le> 3" "fifo_dibits (snd (stuff q d))"
    using stuff_dibits [of q d] by simp_all
  with Cons.IH [of "snd (stuff q d)"] Cons.prems(2) show ?case
    by (simp add: split_beta)
qed

lemma decode_row_dibits:
  assumes "\<forall>v x. fst (dec v x) \<le> 3"
  shows "\<forall>d \<in> set (fst (decode_row dec v xs)). d \<le> 3"
  using assms by (induction xs arbitrary: v) (simp_all add: split_beta)

lemma pack_encoders_dibits:
  "\<forall>x < length fs. fifo_dibits (fs ! x) \<Longrightarrow> \<forall>row \<in> set rows. \<forall>d \<in> set row. d \<le> 3 \<Longrightarrow>
   \<forall>x < length fs. fifo_dibits (fst (pack_encoders env e0 fs oc rows) ! x)"
proof (induction rows arbitrary: e0 fs oc)
  case Nil
  then show ?case by simp
next
  case (Cons row rows)
  let ?q = "fst (pack_row (enco_which_dibits env e0) 0 (fs ! e0) oc row)"
  have "\<forall>x < length (fs[e0 := ?q]). fifo_dibits (fs[e0 := ?q] ! x)"
  proof (intro allI impI)
    fix x
    assume x: "x < length (fs[e0 := ?q])"
    show "fifo_dibits (fs[e0 := ?q] ! x)"
    proof (cases "x = e0")
      case True
      with x Cons.prems have "fifo_dibits (fs ! e0)" "\<forall>d \<in> set row. d \<le> 3" by simp_all
      then have "fifo_dibits ?q"
        using stuff_all_dibits [of "fs ! e0" row] by (simp add: pack_row_fifo)
      with True x show ?thesis by simp
    next
      case False
      with x Cons.prems(1) show ?thesis by simp
    qed
  qed
  from Cons.IH [OF this] Cons.prems(2) show ?case
    by (simp add: split_beta)
qed

lemma decode_batch_dibits:
  assumes "\<forall>v x. fst (decode env v x) \<le> 3" and "fifos_dibits (fifo st)"
  shows "fifos_dibits (fifo (snd (decode_batch env inb i oc st)))"
proof -
  let ?rows = "map fst (run_decoders env (viterbi st) (build_symbols env inb i))"
  have "\<forall>row \<in> set ?rows. \<forall>d \<in> set row. d \<le> 3"
    using decode_row_dibits [OF assms(1)] by (auto simp: run_decoders_def)
  moreover have "\<forall>x < length (fifo st). fifo_dibits (fifo st ! x)"
    using assms(2) by (simp add: fifos_dibits_def)
  ultimately have "\<forall>x < length (fifo st).
      fifo_dibits (fst (pack_encoders env 0 (fifo st) oc ?rows) ! x)"
    by (rule pack_encoders_dibits [rotated])
  then show ?thesis
    using assms(2)
    by (simp add: decode_batch_def Let_def split_beta fifos_dibits_def pack_encoders_sizes)
qed

lemma work_loop_dibits:
  assumes "\<forall>v x. fst (decode env v x) \<le> 3"
  shows "fifos_dibits (fifo st) \<Longrightarrow> fifos_dibits (fifo (snd (work_loop env a i oc st)))"
proof (induction "nat (noutput_items a - int i)" arbitrary: i oc st rule: less_induct)
  case less
  show ?case
  proof (cases "int i < noutput_items a")
    case False
    with less.prems show ?thesis by (simp add: work_loop_end)
  next
    case True
    let ?oc1 = "fst (decode_batch env (inbuf a) i oc st)"
    let ?st1 = "snd (decode_batch env (inbuf a) i oc st)"
    let ?r = "copy_segments env a ?oc1 i 0 ?st1"
    have inv: "fifos_dibits (fifo (snd ?r))"
      using less.prems by (simp add: copy_segments_members decode_batch_dibits [OF assms])
    show ?thesis
    proof (cases "fst ?r")
      case None
      have "nat (noutput_items a - int (i + NCODERS)) < nat (noutput_items a - int i)"
        using True by (simp add: NCODERS_def)
      from less.hyps [OF this inv] None show ?thesis
        by (simp add: work_loop_step [OF True] split_beta)
    next
      case (Some err)
      with inv show ?thesis
        by (simp add: work_loop_step [OF True] split_beta)
    qed
  qed
qed

lemma fifo_dibits_interleaver_fifo: "fifo_dibits (interleaver_fifo n)"
  by (simp add: fifo_dibits_def interleaver_fifo_def) (simp add: fifo_reset_def)

lemma fifos_dibits_replicate: "fifos_dibits (replicate NCODERS (interleaver_fifo n))"
  by (simp add: fifos_dibits_def fifo_dibits_interleaver_fifo)

lemma reset_dibits:
  assumes "fifos_dibits (fifo st)"
  shows "fifos_dibits (fifo (reset st))"
  using assms
  by (simp add: fifos_dibits_def reset_def reset_from_nth fifo_reset_interleaver_fifo
      fifo_dibits_interleaver_fifo)

lemma run_calls_dibits:
  assumes "\<forall>v x. fst (decode env v x) \<le> 3"
  shows "fifos_dibits (fifo st) \<Longrightarrow> fifos_dibits (fifo (run_calls env st cs))"
proof (induction cs arbitrary: st)
  case Nil
  then show ?case by simp
next
  case (Cons c cs)
  then show ?case
    by (cases c) (simp_all add: work_def work_loop_dibits [OF assms] reset_dibits)
qed

lemma constructed_dibits: "fifos_dibits (fifo (atsc_viterbi_decoder_impl env))"
  by (simp add: constructed_fifo fifos_dibits_replicate)

lemma stuff_all_length: "length (fst (stuff_all q ds)) = length ds"
  by (induction ds arbitrary: q) (simp_all add: split_beta)

subsection \<open>What the packer leaves in \<open>out_copy\<close>\<close>

lemma batch_rows:
  "length (map fst (run_decoders env vs symbols)) = NCODERS"
  "x < NCODERS \<Longrightarrow>
   map fst (run_decoders env vs symbols) ! x
     = fst (decode_row (decode env) (vs ! x) (symbols ! x))"
  by (simp_all add: run_decoders_def)

lemma batch_row_length:
  "x < NCODERS \<Longrightarrow>
   length (fst (decode_row (decode env) v (build_symbols env inb i ! x))) = enco_which_max env"
  by (simp add: decode_row_length build_symbols_length)

text \<open>
  C9. In any state of the block's lifetime, with a decoder that returns dibits, the
  packing of a batch leaves in \<open>out_copy\<close>, for every encoder \<open>e\<close> and slot \<open>k\<close> with
  output bit offset \<open>b\<close>: in byte \<open>b div 8\<close>, at the bits \<open>b mod 8\<close> and the one above, the
  dibit that \<open>fifo[e]\<close> returned for that slot, a value of 0..3. The stores of the
  later slots, also those into the same byte, leave these bits alone as long as their
  own bit-pairs do not cover them, and a bit that the bit-pair of no slot covers is as
  it was before the batch: each store rewrites its two bits and nothing else.
\<close>

theorem decode_batch_packs_dibits:
  assumes "st = run_calls env (atsc_viterbi_decoder_impl env) cs"
    and "\<forall>v x. fst (decode env v x) \<le> 3"
    and "e < NCODERS" and "k < enco_which_max env" and "n < 8"
    and "covers (enco_which_dibits env e k) a n"
    and "\<forall>e' k'. e' < NCODERS \<and> k' < enco_which_max env \<and> (e < e' \<or> e' = e \<and> k < k')
           \<longrightarrow> \<not> covers (enco_which_dibits env e' k') a n"
  shows "a = enco_which_dibits env e k div 8
       \<and> bit (fst (decode_batch env inb i oc st) a) n
           = bit (delayed_dibit env inb i st e k) (n - enco_which_dibits env e k mod 8)
       \<and> delayed_dibit env inb i st e k \<le> 3
       \<and> (\<forall>a' n'. n' < 8
             \<and> (\<forall>e' k'. e' < NCODERS \<and> k' < enco_which_max env
                   \<longrightarrow> \<not> covers (enco_which_dibits env e' k') a' n')
             \<longrightarrow> bit (fst (decode_batch env inb i oc st) a') n' = bit (oc a') n')"
proof -
  let ?symbols = "build_symbols env inb i"
  let ?rows = "map fst (run_decoders env (viterbi st) ?symbols)"
  have inv: "fifos_dibits (fifo st)"
    unfolding assms(1) by (rule run_calls_dibits [OF assms(2) constructed_dibits])
  have row: "?rows ! x = fst (decode_row (decode env) (viterbi st ! x) (?symbols ! x))"
    and len: "length (?rows ! x) = enco_which_max env" if "x < NCODERS" for x
    using that by (simp_all add: batch_rows batch_row_length)
  have dibits: "\<forall>x < length ?rows.
      \<forall>r \<in> set (fst (stuff_all (fifo st ! (0 + x)) (?rows ! x))). r \<le> 3"
  proof (intro allI impI)
    fix x
    assume "x < length ?rows"
    then have x: "x < NCODERS" by (simp add: run_decoders_def)
    then have "fifo_dibits (fifo st ! x)"
      using inv by (simp add: fifos_dibits_def)
    moreover have "\<forall>d \<in> set (?rows ! x). d \<le> 3"
      unfolding row [OF x] by (rule decode_row_dibits [OF assms(2)])
    ultimately show "\<forall>r \<in> set (fst (stuff_all (fifo st ! (0 + x)) (?rows ! x))). r \<le> 3"
      using stuff_all_dibits [of "fifo st ! x" "?rows ! x"] by simp
  qed
  have oc: "fst (decode_batch env inb i oc st) = snd (pack_encoders env 0 (fifo st) oc ?rows)"
    by (rule decode_batch_out_copy)
  have delayed: "delayed_dibit env inb i st e k = fst (stuff_all (fifo st ! (0 + e)) (?rows ! e)) ! k"
    by (simp add: delayed_dibit_def row [OF assms(3)])
  have rows_length: "length ?rows = NCODERS"
    by (simp add: run_decoders_def)
  have e: "e < length ?rows"
    unfolding rows_length by (rule assms(3))
  have k: "k < length (?rows ! e)"
    unfolding len [OF assms(3)] by (rule assms(4))
  have later_row: "\<forall>j'. k < j' \<and> j' < length (?rows ! e)
      \<longrightarrow> \<not> covers (enco_which_dibits env (0 + e) j') a n"
    unfolding len [OF assms(3)] using assms(3,7) by simp
  have later_rows: "\<forall>x' j'. e < x' \<and> x' < length ?rows \<and> j' < length (?rows ! x')
      \<longrightarrow> \<not> covers (enco_which_dibits env (0 + x') j') a n"
  proof (intro allI impI)
    fix x' j'
    assume h: "e < x' \<and> x' < length ?rows \<and> j' < length (?rows ! x')"
    then have x': "x' < NCODERS" unfolding rows_length by simp
    with h have "j' < enco_which_max env" unfolding len [OF x'] by simp
    with h x' assms(7) show "\<not> covers (enco_which_dibits env (0 + x') j') a n" by simp
  qed
  have here: "covers (enco_which_dibits env (0 + e) k) a n"
    using assms(6) by simp
  have "bit (snd (pack_encoders env 0 (fifo st) oc ?rows) a) n
          = bit (fst (stuff_all (fifo st ! (0 + e)) (?rows ! e)) ! k)
              (n - enco_which_dibits env (0 + e) k mod 8)"
    by (rule pack_encoders_sets_bit [OF assms(5) dibits e k here later_row later_rows])
  then have written: "bit (fst (decode_batch env inb i oc st) a) n
      = bit (delayed_dibit env inb i st e k) (n - enco_which_dibits env e k mod 8)"
    by (simp add: oc delayed)
  have "fst (stuff_all (fifo st ! (0 + e)) (?rows ! e)) ! k
          \<in> set (fst (stuff_all (fifo st ! (0 + e)) (?rows ! e)))"
    using k stuff_all_length [of "fifo st ! (0 + e)" "?rows ! e"] by (intro nth_mem) simp
  with dibits e have bound: "delayed_dibit env inb i st e k \<le> 3"
    unfolding delayed by blast
  have kept: "bit (fst (decode_batch env inb i oc st) a') n' = bit (oc a') n'"
    if "n' < 8" and "\<forall>e' k'. e' < NCODERS \<and> k' < enco_which_max env
                       \<longrightarrow> \<not> covers (enco_which_dibits env e' k') a' n'" for a' n'
  proof -
    have "\<forall>x < length ?rows. \<forall>j < length (?rows ! x).
            \<not> covers (enco_which_dibits env (0 + x) j) a' n'"
    proof (intro allI impI)
      fix x j
      assume "x < length ?rows" and j: "j < length (?rows ! x)"
      then have x: "x < NCODERS" unfolding rows_length by simp
      with j have "j < enco_which_max env" unfolding len [OF x] by simp
      with x that(2) show "\<not> covers (enco_which_dibits env (0 + x) j) a' n'" by simp
    qed
    from pack_encoders_keeps_bit [OF that(1) dibits this] show ?thesis
      by (simp add: oc)
  qed
  from assms(6) written bound kept show ?thesis
    by (simp add: covers_def)
qed

subsection \<open>A slot of the test bench whose dibit comes out of the queue\<close>

lemma pack_encoders_below:
  "x < e0 \<Longrightarrow> fst (pack_encoders env e0 fs oc rows) ! x = fs ! x"
  by (induction rows arbitrary: e0 fs oc) (simp_all add: split_beta)

lemma pack_encoders_fifo:
  "x < length rows \<Longrightarrow> e0 + x < length fs \<Longrightarrow>
   fst (pack_encoders env e0 fs oc rows) ! (e0 + x) = snd (stuff_all (fs ! (e0 + x)) (rows ! x))"
proof (induction rows arbitrary: e0 fs oc x)
  case Nil
  then show ?case by simp
next
  case (Cons row rows)
  show ?case
  proof (cases x)
    case 0
    with Cons.prems show ?thesis
      by (simp add: split_beta pack_encoders_below pack_row_fifo)
  next
    case (Suc x0)
    with Cons.prems Cons.IH [of x0 "Suc e0"] show ?thesis
      by (simp add: split_beta)
  qed
qed

lemma stuff_all_after:
  "fifo_wf q \<Longrightarrow> 0 < m_size q \<Longrightarrow>
   fifo_wf (snd (stuff_all q ds)) \<and> m_size (snd (stuff_all q ds)) = m_size q
   \<and> fifo_contents (snd (stuff_all q ds)) = drop (length ds) (fifo_contents q @ ds)"
proof (induction ds arbitrary: q)
  case Nil
  then show ?case by (simp add: length_fifo_contents)
next
  case (Cons d ds)
  let ?q1 = "snd (stuff q d)"
  have wf1: "fifo_wf ?q1" and sz1: "0 < m_size ?q1" "m_size ?q1 = m_size q"
    using Cons.prems by (simp_all add: fifo_wf_stuff)
  have ne: "fifo_contents q \<noteq> []"
    using Cons.prems length_fifo_contents [of q] by auto
  then have "drop (length (d # ds)) (fifo_contents q @ d # ds)
               = drop (length ds) ((tl (fifo_contents q) @ [d]) @ ds)"
    by (cases "fifo_contents q") simp_all
  with Cons.IH [OF wf1 sz1(1)] Cons.prems sz1(2) show ?case
    by (simp add: split_beta stuff_contents)
qed

lemma fake_decode_outputs:
  "fst (decode_row fake_decode [v] xs) = take (length xs) (map (\<lambda>x. x AND 3) (v # xs))"
  by (induction xs arbitrary: v) (simp_all add: split_beta fake_decode_def)

text \<open>The test bench after one batch of samples of dibit 1: decoder 11 holds the dibit 1
  and fifo 11 is full of dibits 1.\<close>

lemma test_after_batch:
  "viterbi (snd (work test_env (test_args 12 1 (test_tags [0 ..< 12])) test_block)) ! 11 = [1]"
  "fifo_wf (fifo (snd (work test_env (test_args 12 1 (test_tags [0 ..< 12])) test_block)) ! 11)"
  "m_size (fifo (snd (work test_env (test_args 12 1 (test_tags [0 ..< 12])) test_block)) ! 11)
     = 827"
  "fifo_contents (fifo (snd (work test_env (test_args 12 1 (test_tags [0 ..< 12])) test_block)) ! 11)
     = replicate 827 1"
proof -
  let ?a1 = "test_args 12 1 (test_tags [0 ..< 12])"
  let ?st1 = "snd (work test_env ?a1 test_block)"
  let ?rows = "map fst (run_decoders test_env (viterbi test_block)
                          (build_symbols test_env (\<lambda>_. 1) 0))"
  have n: "noutput_items ?a1 = 12" and inb: "inbuf ?a1 = (\<lambda>_. 1)"
    by (simp_all add: test_args_def)
  have members: "viterbi ?st1 = map snd (run_decoders test_env (viterbi test_block)
                                  (build_symbols test_env (\<lambda>_. 1) 0))"
    "fifo ?st1 = fst (pack_encoders test_env 0 (fifo test_block) (out_copy_init ?a1) ?rows)"
    by (simp_all add: work_one_batch [OF n test_tags_present] copy_segments_members
        decode_batch_viterbi inb decode_batch_def Let_def split_beta)
  have "viterbi ?st1 ! 11 = snd (decode_row fake_decode [0] (replicate 828 1))"
    using members(1)
    by (simp add: run_decoders_def test_symbols NCODERS_def test_block_def default_decoders_def)
  then show "viterbi ?st1 ! 11 = [1]"
    by (simp add: fake_decode_final)
  have size: "nat (fifo_size test_env (default_decoders test_env)) = 827"
    by (simp add: fifo_size_def ATSC_DATA_SEGMENT_LENGTH_def default_decoders_def NCODERS_def)
  have f0: "fifo test_block = replicate NCODERS (interleaver_fifo 827)"
    by (simp add: test_block_def constructed_fifo size)
  have row: "?rows ! 11 = 0 # replicate 827 1"
    by (simp add: batch_rows NCODERS_def test_symbols test_block_def default_decoders_def
        fake_decode_outputs)
  have "fifo ?st1 ! (0 + 11) = snd (stuff_all (fifo test_block ! (0 + 11)) (?rows ! 11))"
    unfolding members(2)
    by (rule pack_encoders_fifo) (simp_all add: run_decoders_def f0 NCODERS_def)
  then have q: "fifo ?st1 ! 11 = snd (stuff_all (interleaver_fifo 827) (0 # replicate 827 1))"
    by (simp add: row f0 NCODERS_def)
  have wf: "fifo_wf (interleaver_fifo 827)" "0 < m_size (interleaver_fifo 827)"
    "fifo_contents (interleaver_fifo 827) = replicate 827 0"
    by (simp_all add: interleaver_fifo_def)
  note after = stuff_all_after [OF wf(1,2), of "0 # replicate 827 1"]
  from after show "fifo_wf (fifo ?st1 ! 11)" "m_size (fifo ?st1 ! 11) = 827"
    unfolding q by simp_all
  from after show "fifo_contents (fifo ?st1 ! 11) = replicate 827 1"
    unfolding q wf(3) by simp
qed

theorem decode_batch_packs_dibits_witness:
  "covers (enco_which_dibits test_env 11 824) 2483 6
   \<and> delayed_dibit test_env (\<lambda>_. 2) 0
        (run_calls test_env (atsc_viterbi_decoder_impl test_env)
           [Work (test_args 12 1 (test_tags [0 ..< 12]))]) 11 824 = 1
   \<and> bit (fst (decode_batch test_env (\<lambda>_. 2) 0 (\<lambda>_. 0)
                 (run_calls test_env (atsc_viterbi_decoder_impl test_env)
                    [Work (test_args 12 1 (test_tags [0 ..< 12]))])) 2483) 6"
proof -
  let ?st = "run_calls test_env (atsc_viterbi_decoder_impl test_env)
               [Work (test_args 12 1 (test_tags [0 ..< 12]))]"
  have st: "?st = snd (work test_env (test_args 12 1 (test_tags [0 ..< 12])) test_block)"
    by (simp add: test_block_def)
  have dec: "\<forall>v x. fst (decode test_env v x) \<le> 3"
    by (simp add: fake_decode_def and_3_dibit)
  have e: "(11::nat) < NCODERS" and k: "(824::nat) < enco_which_max test_env" and n: "(6::nat) < 8"
    by (simp_all add: NCODERS_def)
  have here: "covers (enco_which_dibits test_env 11 824) 2483 6"
    by (simp add: covers_def)
  have later: "\<forall>e' k'. e' < NCODERS \<and> k' < enco_which_max test_env
                   \<and> (11 < e' \<or> e' = 11 \<and> 824 < k')
                 \<longrightarrow> \<not> covers (enco_which_dibits test_env e' k') 2483 6"
  proof (intro allI impI)
    fix e' k'
    assume h: "e' < NCODERS \<and> k' < enco_which_max test_env \<and> (11 < e' \<or> e' = 11 \<and> 824 < k')"
    then have "e' = 11" and "k' = 825 \<or> k' = 826 \<or> k' = 827"
      by (auto simp: NCODERS_def)
    then show "\<not> covers (enco_which_dibits test_env e' k') 2483 6"
      by (auto simp: covers_def)
  qed
  note w = decode_batch_packs_dibits [where cs = "[Work (test_args 12 1 (test_tags [0 ..< 12]))]"
      and inb = "\<lambda>_. 2" and i = 0 and oc = "\<lambda>_. 0", OF refl dec e k n here later]
  have row: "fst (decode_row (decode test_env) (viterbi ?st ! 11)
                    (build_symbols test_env (\<lambda>_. 2) 0 ! 11)) = 1 # replicate 827 2"
    unfolding st
    by (simp add: test_after_batch(1) test_symbols NCODERS_def fake_decode_outputs)
  have "fst (stuff_all (fifo ?st ! 11) (1 # replicate 827 2))
          = take (length (1 # replicate 827 2 :: byte list))
              (fifo_contents (fifo ?st ! 11) @ 1 # replicate 827 2)"
    unfolding st by (rule stuff_all_contents) (simp_all add: test_after_batch)
  then have outs: "fst (stuff_all (fifo ?st ! 11) (1 # replicate 827 2)) = replicate 827 1 @ [1]"
    unfolding st by (simp add: test_after_batch(4))
  have "delayed_dibit test_env (\<lambda>_. 2) 0 ?st 11 824
          = fst (stuff_all (fifo ?st ! 11) (1 # replicate 827 2)) ! 824"
    by (simp only: delayed_dibit_def row)
  also have "\<dots> = (replicate 827 1 @ [1]) ! 824"
    by (simp only: outs)
  also have "\<dots> = 1"
    by (simp add: nth_append)
  finally have d: "delayed_dibit test_env (\<lambda>_. 2) 0 ?st 11 824 = 1" .
  from w have "bit (fst (decode_batch test_env (\<lambda>_. 2) 0 (\<lambda>_. 0) ?st) 2483) 6
                 = bit (delayed_dibit test_env (\<lambda>_. 2) 0 ?st 11 824)
                     (6 - enco_which_dibits test_env 11 824 mod 8)"
    by blast
  then have "bit (fst (decode_batch test_env (\<lambda>_. 2) 0 (\<lambda>_. 0) ?st) 2483) 6"
    unfolding d by simp
  with here d show ?thesis by blast
qed

end
